theory Spec2Isabelle
  imports Main "HOL-Library.Word"
begin

section \<open>Coded streams\<close>

text \<open>
  The codec writes through \<open>CodedOutputStream\<close> and reads through \<open>CodedInputStream\<close>
  of the protobuf runtime. A stream is the list of its bytes; a read returns the value
  and the bytes that follow it, or an error.
\<close>

type_synonym byte = "8 word"

text \<open>
  The exceptions of the codec:
  \<^item> \<open>Malformed\<close>: \<open>InvalidProtocolBufferException\<close> of the input stream (truncated message,
    malformed varint, negative size);
  \<^item> \<open>IllegalState\<close>: \<open>Preconditions.checkState\<close> in \<open>deserialize\<close>;
  \<^item> \<open>DigestNotAvailable\<close>: \<open>Preconditions.checkNotNull\<close> in \<open>serializeMultiItemChildArray\<close>;
  \<^item> \<open>TransitiveMissing\<close>: \<open>Preconditions.checkNotNull\<close> in
    \<open>deserializeMultipleItemChildArray\<close> ("Transitive nested set missing");
  \<^item> \<open>PayloadError\<close>: a \<open>SerializationException\<close> of the payload codec or of the enum codec.
\<close>

datatype error = Malformed | IllegalState | DigestNotAvailable | TransitiveMissing | PayloadError

text \<open>A Java \<open>int\<close>: the value wrapped to 32 bits, signed.\<close>

definition to_int32 :: "int \<Rightarrow> int" where
  "to_int32 v = (v + 2 ^ 31) mod 2 ^ 32 - 2 ^ 31"

text \<open>\<open>writeUInt32NoTag\<close> and \<open>writeUInt64NoTag\<close>: base-128 varint, low group first.\<close>

function writeRawVarint :: "nat \<Rightarrow> byte list" where
  "writeRawVarint n =
     (if n < 128 then [of_nat n] else of_nat (n mod 128 + 128) # writeRawVarint (n div 128))"
  by pat_completeness auto
termination
  by (relation "measure id") auto

declare writeRawVarint.simps [simp del]

text \<open>\<open>writeInt32NoTag\<close>: a negative value is sign-extended to 64 bits (ten bytes).\<close>

definition writeInt32NoTag :: "int \<Rightarrow> byte list" where
  "writeInt32NoTag v =
     (if 0 \<le> to_int32 v then writeRawVarint (nat (to_int32 v))
      else writeRawVarint (nat (to_int32 v + 2 ^ 64)))"

definition writeBoolNoTag :: "bool \<Rightarrow> byte list" where
  "writeBoolNoTag b = [if b then 1 else 0]"

text \<open>\<open>writeByteArrayNoTag\<close>: the length as a varint, then the bytes.\<close>

definition writeByteArrayNoTag :: "byte list \<Rightarrow> byte list" where
  "writeByteArrayNoTag bs = writeRawVarint (length bs mod 2 ^ 32) @ bs"

text \<open>
  \<open>readRawVarint64SlowPath\<close>: at most ten bytes; the first argument counts the bytes
  still allowed. The value returned here is the sum of all groups, before truncation.
\<close>

fun readRawVarint :: "nat \<Rightarrow> byte list \<Rightarrow> error + nat \<times> byte list" where
  "readRawVarint 0 bs = Inl Malformed"
| "readRawVarint (Suc k) [] = Inl Malformed"
| "readRawVarint (Suc k) (b # bs) =
     (if unat b < 128 then Inr (unat b, bs)
      else (case readRawVarint k bs of
              Inl e \<Rightarrow> Inl e
            | Inr (v, rest) \<Rightarrow> Inr (unat b - 128 + 128 * v, rest)))"

definition readRawVarint64 :: "byte list \<Rightarrow> error + nat \<times> byte list" where
  "readRawVarint64 bs =
     (case readRawVarint 10 bs of Inl e \<Rightarrow> Inl e | Inr (v, rest) \<Rightarrow> Inr (v mod 2 ^ 64, rest))"

definition readRawVarint32 :: "byte list \<Rightarrow> error + int \<times> byte list" where
  "readRawVarint32 bs =
     (case readRawVarint64 bs of Inl e \<Rightarrow> Inl e | Inr (v, rest) \<Rightarrow> Inr (to_int32 (int v), rest))"

definition readInt32 :: "byte list \<Rightarrow> error + int \<times> byte list" where
  "readInt32 bs = readRawVarint32 bs"

definition readBool :: "byte list \<Rightarrow> error + bool \<times> byte list" where
  "readBool bs =
     (case readRawVarint64 bs of Inl e \<Rightarrow> Inl e | Inr (v, rest) \<Rightarrow> Inr (v \<noteq> 0, rest))"

definition readBytes :: "byte list \<Rightarrow> error + byte list \<times> byte list" where
  "readBytes bs =
     (case readRawVarint32 bs of
        Inl e \<Rightarrow> Inl e
      | Inr (n, rest) \<Rightarrow>
          if n < 0 then Inl Malformed
          else if nat n \<le> length rest then Inr (take (nat n) rest, drop (nat n) rest)
          else Inl Malformed)"

section \<open>Order and its enum codec\<close>

datatype Order = STABLE_ORDER | COMPILE_ORDER | LINK_ORDER | NAIVE_LINK_ORDER

fun ordinal :: "Order \<Rightarrow> int" where
  "ordinal STABLE_ORDER = 0"
| "ordinal COMPILE_ORDER = 1"
| "ordinal LINK_ORDER = 2"
| "ordinal NAIVE_LINK_ORDER = 3"

text \<open>
  Modelled from the spec: \<open>EnumCodec\<close> is not among the sources. The spec has the
  order-kind "encoded by its ordinal", a varint, the ordinals "defined by the enum
  declaration order"; an ordinal that names no constant is a \<open>SerializationException\<close>.
\<close>

definition orderCodec_serialize :: "Order \<Rightarrow> byte list" where
  "orderCodec_serialize ord = writeInt32NoTag (ordinal ord)"

definition orderCodec_deserialize :: "byte list \<Rightarrow> error + Order \<times> byte list" where
  "orderCodec_deserialize bs =
     (case readRawVarint32 bs of
        Inl e \<Rightarrow> Inl e
      | Inr (v, rest) \<Rightarrow>
          if v = 0 then Inr (STABLE_ORDER, rest)
          else if v = 1 then Inr (COMPILE_ORDER, rest)
          else if v = 2 then Inr (LINK_ORDER, rest)
          else if v = 3 then Inr (NAIVE_LINK_ORDER, rest)
          else Inl PayloadError)"

section \<open>Objects\<close>

text \<open>
  The \<open>children\<close> field of a nested set is a Java \<open>Object\<close>: the sentinel
  \<open>NestedSet.EMPTY_CHILDREN\<close>, a single element of type \<open>T\<close>, or an \<open>Object[]\<close>. An array
  is an object with an identity, its address; the heap gives the array at an address.
  An element is its value.
\<close>

type_synonym addr = nat

datatype 'a obj = EMPTY_CHILDREN | Elem 'a | Arr addr

type_synonym 'a heap = "addr \<Rightarrow> 'a obj list"

record 'a NestedSet =
  getOrder :: Order
  rawChildren :: "'a obj"

text \<open>
  What the codec is given: the switch \<open>SerializationConstants.shouldSerializeNestedSet\<close>,
  the hash function of \<open>Hashing.md5()\<close>, and the two operations of the payload codec
  behind \<open>SerializationContext\<close> and \<open>DeserializationContext\<close>.
\<close>

record 'a codec_env =
  shouldSerializeNestedSet :: bool
  md5 :: "byte list \<Rightarrow> byte list"
  context_serialize :: "'a \<Rightarrow> error + byte list"
  context_deserialize :: "byte list \<Rightarrow> error + 'a \<times> byte list"

section \<open>Topological sort\<close>

text \<open>\<open>LinkedHashSet.add\<close>: insertion order, no second copy.\<close>

definition add :: "'a obj list \<Rightarrow> 'a obj \<Rightarrow> 'a obj list" where
  "add sets c = (if c \<in> set sets then sets else sets @ [c])"

text \<open>The \<open>for\<close> loop of \<open>dfs\<close>, with the recursive call as a parameter.\<close>

fun dfs_loop ::
  "('a obj list \<Rightarrow> 'a obj \<Rightarrow> 'a obj list option) \<Rightarrow> 'a obj list \<Rightarrow> 'a obj list \<Rightarrow> 'a obj list option"
where
  "dfs_loop rec sets [] = Some sets"
| "dfs_loop rec sets (child # rest) =
     (case child of
        Arr b \<Rightarrow> (case rec sets child of None \<Rightarrow> None | Some sets' \<Rightarrow> dfs_loop rec sets' rest)
      | _ \<Rightarrow> dfs_loop rec sets rest)"

text \<open>
  \<open>dfs\<close> is recursive in Java and has no bound of its own. The first argument is the
  depth of recursion still available; \<open>None\<close> is a call that does not return (in Java,
  a \<open>StackOverflowError\<close>).
\<close>

primrec dfs :: "nat \<Rightarrow> 'a heap \<Rightarrow> 'a obj list \<Rightarrow> 'a obj \<Rightarrow> 'a obj list option" where
  "dfs 0 h sets children = None"
| "dfs (Suc n) h sets children =
     (if children \<in> set sets then Some sets
      else (case children of
              Arr a \<Rightarrow> (case dfs_loop (dfs n h) sets (h a) of
                          None \<Rightarrow> None
                        | Some sets' \<Rightarrow> Some (add sets' children))
            | _ \<Rightarrow> Some (add sets children)))"

definition getTopologicallySortedChildren ::
  "nat \<Rightarrow> 'a heap \<Rightarrow> 'a NestedSet \<Rightarrow> 'a obj list option" where
  "getTopologicallySortedChildren n h nestedSet = dfs n h [] (rawChildren nestedSet)"

section \<open>Serialization\<close>

text \<open>
  The loop of \<open>serializeMultiItemChildArray\<close>. \<open>childToDigest\<close> is an identity map; its
  keys that are looked up are arrays, which are equal when their addresses are. The
  sentinel as an entry of an array is not a \<open>T\<close>: the unchecked cast hands it to the
  payload codec, which has no codec for it.
\<close>

fun serializeEntries ::
  "'a codec_env \<Rightarrow> ('a obj \<rightharpoonup> byte list) \<Rightarrow> 'a obj list \<Rightarrow> error + byte list" where
  "serializeEntries ctx childToDigest [] = Inr []"
| "serializeEntries ctx childToDigest (child # rest) =
     (case (case child of
              Arr b \<Rightarrow> (case childToDigest child of
                          None \<Rightarrow> Inl DigestNotAvailable
                        | Some digest \<Rightarrow> Inr (writeBoolNoTag True @ writeByteArrayNoTag digest))
            | Elem p \<Rightarrow> (case context_serialize ctx p of
                           Inl e \<Rightarrow> Inl e
                         | Inr bs \<Rightarrow> Inr (writeBoolNoTag False @ bs))
            | EMPTY_CHILDREN \<Rightarrow> Inl PayloadError) of
        Inl e \<Rightarrow> Inl e
      | Inr bs \<Rightarrow> (case serializeEntries ctx childToDigest rest of
                     Inl e \<Rightarrow> Inl e
                   | Inr bs' \<Rightarrow> Inr (bs @ bs')))"

definition serializeMultiItemChildArray ::
  "'a codec_env \<Rightarrow> 'a obj list \<Rightarrow> ('a obj \<rightharpoonup> byte list) \<Rightarrow> error + byte list" where
  "serializeMultiItemChildArray ctx children childToDigest =
     (case serializeEntries ctx childToDigest children of
        Inl e \<Rightarrow> Inl e
      | Inr bs \<Rightarrow> Inr (writeInt32NoTag (int (length children)) @ bs))"

definition serializeSingleItemChildArray :: "'a codec_env \<Rightarrow> 'a \<Rightarrow> error + byte list" where
  "serializeSingleItemChildArray ctx singleChild =
     (case context_serialize ctx singleChild of
        Inl e \<Rightarrow> Inl e
      | Inr bs \<Rightarrow> Inr (writeInt32NoTag 1 @ bs))"

text \<open>The bytes that \<open>serializeOneNestedSet\<close> writes to \<open>childCodedOut\<close>, the inner stream.\<close>

fun serializeBody ::
  "'a codec_env \<Rightarrow> 'a heap \<Rightarrow> ('a obj \<rightharpoonup> byte list) \<Rightarrow> 'a obj \<Rightarrow> error + byte list" where
  "serializeBody ctx h childToDigest (Arr a) =
     serializeMultiItemChildArray ctx (h a) childToDigest"
| "serializeBody ctx h childToDigest (Elem p) = serializeSingleItemChildArray ctx p"
| "serializeBody ctx h childToDigest EMPTY_CHILDREN = Inr (writeInt32NoTag 0)"

text \<open>
  The hashing stream sees the bytes of the inner stream and nothing else; the digest and
  then the bytes go to the outer stream, and the digest into \<open>childToDigest\<close>.
\<close>

definition serializeOneNestedSet ::
  "'a codec_env \<Rightarrow> 'a heap \<Rightarrow> 'a obj \<Rightarrow> byte list \<times> ('a obj \<rightharpoonup> byte list)
     \<Rightarrow> error + byte list \<times> ('a obj \<rightharpoonup> byte list)" where
  "serializeOneNestedSet ctx h children st =
     (case serializeBody ctx h (snd st) children of
        Inl e \<Rightarrow> Inl e
      | Inr childBytes \<Rightarrow>
          Inr (fst st @ writeByteArrayNoTag (md5 ctx childBytes) @ writeByteArrayNoTag childBytes,
               (snd st)(children \<mapsto> md5 ctx childBytes)))"

text \<open>The loop of \<open>serialize\<close> over the sorted nodes.\<close>

fun serializeAll ::
  "'a codec_env \<Rightarrow> 'a heap \<Rightarrow> 'a obj list \<Rightarrow> byte list \<times> ('a obj \<rightharpoonup> byte list)
     \<Rightarrow> error + byte list \<times> ('a obj \<rightharpoonup> byte list)" where
  "serializeAll ctx h [] st = Inr st"
| "serializeAll ctx h (children # rest) st =
     (case serializeOneNestedSet ctx h children st of
        Inl e \<Rightarrow> Inl e
      | Inr st' \<Rightarrow> serializeAll ctx h rest st')"

text \<open>
  \<open>serialize\<close>: the bytes written to \<open>codedOut\<close> when the call returns, an error when it
  throws, \<open>None\<close> when the sort does not return within depth \<open>n\<close>.
\<close>

definition serialize ::
  "nat \<Rightarrow> 'a codec_env \<Rightarrow> 'a heap \<Rightarrow> 'a NestedSet \<Rightarrow> (error + byte list) option" where
  "serialize n ctx h obj =
     (if \<not> shouldSerializeNestedSet ctx then Some (Inr [])
      else (case getTopologicallySortedChildren n h obj of
              None \<Rightarrow> None
            | Some topoSortedChildren \<Rightarrow>
                Some (case serializeAll ctx h topoSortedChildren
                             (writeInt32NoTag (int (length topoSortedChildren))
                                @ orderCodec_serialize (getOrder obj), Map.empty) of
                        Inl e \<Rightarrow> Inl e
                      | Inr st \<Rightarrow> Inr (fst st))))"

section \<open>The graph of a nested set\<close>

text \<open>
  An array refers to the arrays among its entries. The nodes that \<open>dfs\<close> visits from a
  node are the node and the arrays it reaches. A graph is acyclic from a node when the
  references below it are well-founded; with finitely many arrays that is to have no
  cycle.
\<close>

definition refs :: "'a heap \<Rightarrow> ('a obj \<times> 'a obj) set" where
  "refs h = {(Arr a, Arr b) | a b. Arr b \<in> set (h a)}"

definition reach :: "'a heap \<Rightarrow> 'a obj \<Rightarrow> 'a obj set" where
  "reach h c = {d. (c, d) \<in> (refs h)\<^sup>*}"

definition cyclic_from :: "'a heap \<Rightarrow> 'a obj \<Rightarrow> bool" where
  "cyclic_from h c = (\<exists>d \<in> reach h c. (d, d) \<in> (refs h)\<^sup>+)"

definition acyclic_from :: "'a heap \<Rightarrow> 'a obj \<Rightarrow> bool" where
  "acyclic_from h c = wf {(child, parent). parent \<in> reach h c \<and> (parent, child) \<in> refs h}"

text \<open>A list in which every array comes after the arrays among its entries.\<close>

fun topological :: "'a heap \<Rightarrow> 'a obj list \<Rightarrow> 'a obj list \<Rightarrow> bool" where
  "topological h seen [] = True"
| "topological h seen (c # cs) =
     ((case c of
         Arr a \<Rightarrow> (\<forall>e \<in> set (h a). case e of Arr b \<Rightarrow> e \<in> set seen | _ \<Rightarrow> True)
       | _ \<Rightarrow> True)
      \<and> topological h (seen @ [c]) cs)"

text \<open>The sets that \<open>dfs\<close> works on: no element twice, each array after its arrays.\<close>

definition sorted_set :: "'a heap \<Rightarrow> 'a obj list \<Rightarrow> bool" where
  "sorted_set h sets = (distinct sets \<and> topological h [] sets)"

definition dfs_post :: "'a heap \<Rightarrow> 'a obj list \<Rightarrow> 'a obj \<Rightarrow> 'a obj list \<Rightarrow> bool" where
  "dfs_post h sets c sets' =
     (sorted_set h sets' \<and> set sets' = set sets \<union> reach h c
      \<and> (c \<notin> set sets \<longrightarrow> sets' \<noteq> [] \<and> last sets' = c))"

section \<open>Deserialization\<close>

text \<open>
  The state of the process that deserialization reads and changes: the arrays allocated
  so far, the next free address, and the static map \<open>digestToChild\<close>. The map is built
  with \<open>weakValues()\<close>: the garbage collector may at any time clear an entry whose
  value is not strongly reachable. Two more fields stand for what the codec does not
  decide. \<open>held\<close> are the objects that the rest of the program holds. \<open>collector\<close> is what
  the garbage collector is going to do: for each frame still to be read in this process,
  the keys of the entries it tries to clear just before that frame; when the list is
  empty it clears nothing more.
\<close>

record 'a jvm =
  heap :: "'a heap"
  nextAddr :: addr
  digestToChild :: "byte list \<rightharpoonup> 'a obj"
  held :: "'a obj set"
  collector :: "byte list set list"

text \<open>
  An object is strongly reachable when it is the sentinel, which a static field holds, or
  is reached from an object that is held. While \<open>deserialize\<close> runs, its local variable
  \<open>children\<close> holds the node of the frame before and nothing else of what the call has
  built. \<open>collect\<close> is one run of the collector: of the entries it tries, those whose
  value is not strongly reachable are cleared. Within one frame a reference that has
  been resolved is held by the array under construction, so that a run of the collector
  in the middle of a frame clears nothing that a run before the frame could not.
\<close>

definition strongly_reachable :: "'a heap \<Rightarrow> 'a obj set \<Rightarrow> 'a obj \<Rightarrow> bool" where
  "strongly_reachable h roots child =
     (child = EMPTY_CHILDREN \<or> (\<exists>r \<in> roots. child \<in> reach h r))"

definition collect :: "'a obj option \<Rightarrow> 'a jvm \<Rightarrow> 'a jvm" where
  "collect children st =
     (case collector st of
        [] \<Rightarrow> st
      | tried # later \<Rightarrow>
          st\<lparr>digestToChild :=
               (\<lambda>digest.
                  case digestToChild st digest of
                    None \<Rightarrow> None
                  | Some child \<Rightarrow>
                      if digest \<in> tried
                         \<and> \<not> strongly_reachable (heap st) (held st \<union> set_option children) child
                      then None else Some child),
             collector := later\<rparr>)"

text \<open>The loop of \<open>deserializeMultipleItemChildArray\<close>: the entries still to read.\<close>

fun deserializeEntries ::
  "'a codec_env \<Rightarrow> (byte list \<rightharpoonup> 'a obj) \<Rightarrow> nat \<Rightarrow> byte list \<Rightarrow> error + 'a obj list \<times> byte list"
where
  "deserializeEntries ctx d2c 0 bs = Inr ([], bs)"
| "deserializeEntries ctx d2c (Suc k) bs =
     (case readBool bs of
        Inl e \<Rightarrow> Inl e
      | Inr (isTransitiveEntry, bs1) \<Rightarrow>
          (case (if isTransitiveEntry
                 then (case readBytes bs1 of
                         Inl e \<Rightarrow> Inl e
                       | Inr (digest, bs2) \<Rightarrow>
                           (case d2c digest of
                              None \<Rightarrow> Inl TransitiveMissing
                            | Some child \<Rightarrow> Inr (child, bs2)))
                 else (case context_deserialize ctx bs1 of
                         Inl e \<Rightarrow> Inl e
                       | Inr (p, bs2) \<Rightarrow> Inr (Elem p, bs2))) of
             Inl e \<Rightarrow> Inl e
           | Inr (child, bs2) \<Rightarrow>
               (case deserializeEntries ctx d2c k bs2 of
                  Inl e \<Rightarrow> Inl e
                | Inr (children, bs3) \<Rightarrow> Inr (child # children, bs3))))"

definition deserializeMultipleItemChildArray ::
  "'a codec_env \<Rightarrow> 'a jvm \<Rightarrow> byte list \<Rightarrow> int \<Rightarrow> error + 'a obj \<times> 'a jvm" where
  "deserializeMultipleItemChildArray ctx st childCodedIn childCount =
     (case deserializeEntries ctx (digestToChild st) (nat childCount) childCodedIn of
        Inl e \<Rightarrow> Inl e
      | Inr (children, rest) \<Rightarrow>
          Inr (Arr (nextAddr st),
               st\<lparr>heap := (heap st)(nextAddr st := children), nextAddr := Suc (nextAddr st)\<rparr>))"

text \<open>\<open>putIfAbsent\<close>: the value already there, if any, and the map afterwards.\<close>

definition putIfAbsent ::
  "(byte list \<rightharpoonup> 'a obj) \<Rightarrow> byte list \<Rightarrow> 'a obj \<Rightarrow> 'a obj option \<times> (byte list \<rightharpoonup> 'a obj)" where
  "putIfAbsent m k v = (case m k of None \<Rightarrow> (None, m(k \<mapsto> v)) | Some old \<Rightarrow> (Some old, m))"

text \<open>
  A call that throws leaves the process state as it was when it threw, so the state is
  returned beside the result.
\<close>

definition deserializeOneNestedSet ::
  "'a codec_env \<Rightarrow> 'a jvm \<Rightarrow> byte list \<Rightarrow> (error + 'a obj \<times> byte list) \<times> 'a jvm" where
  "deserializeOneNestedSet ctx st codedIn =
     (case readBytes codedIn of
        Inl e \<Rightarrow> (Inl e, st)
      | Inr (digest, codedIn1) \<Rightarrow>
     (case readBytes codedIn1 of
        Inl e \<Rightarrow> (Inl e, st)
      | Inr (childBytes, codedIn2) \<Rightarrow>
     (case readInt32 childBytes of
        Inl e \<Rightarrow> (Inl e, st)
      | Inr (childCount, childCodedIn) \<Rightarrow>
     (case (if childCount > 1
            then deserializeMultipleItemChildArray ctx st childCodedIn childCount
            else if childCount = 1
            then (case context_deserialize ctx childCodedIn of
                    Inl e \<Rightarrow> Inl e
                  | Inr (p, rest) \<Rightarrow> Inr (Elem p, st))
            else Inr (EMPTY_CHILDREN, st)) of
        Inl e \<Rightarrow> (Inl e, st)
      | Inr (result, st1) \<Rightarrow>
          (case putIfAbsent (digestToChild st1) digest result of
             (oldValue, d2c) \<Rightarrow>
               (Inr (case oldValue of None \<Rightarrow> result | Some old \<Rightarrow> old, codedIn2),
                st1\<lparr>digestToChild := d2c\<rparr>))))))"

text \<open>
  The loop of \<open>deserialize\<close>; \<open>children\<close> is \<open>None\<close> while it is \<open>null\<close>. The collector
  may run before each frame.
\<close>

fun deserializeAll ::
  "'a codec_env \<Rightarrow> nat \<Rightarrow> 'a obj option \<Rightarrow> 'a jvm \<Rightarrow> byte list
     \<Rightarrow> (error + 'a obj option \<times> byte list) \<times> 'a jvm" where
  "deserializeAll ctx 0 children st codedIn = (Inr (children, codedIn), st)"
| "deserializeAll ctx (Suc k) children st codedIn =
     (case deserializeOneNestedSet ctx (collect children st) codedIn of
        (Inl e, st') \<Rightarrow> (Inl e, st')
      | (Inr (children', codedIn'), st') \<Rightarrow> deserializeAll ctx k (Some children') st' codedIn')"

text \<open>
  \<open>createNestedSet\<close>: \<open>order.emptySet()\<close> is the empty set of the order, whose children
  are the sentinel.
\<close>

definition createNestedSet :: "Order \<Rightarrow> 'a obj \<Rightarrow> 'a NestedSet" where
  "createNestedSet ord children =
     (if children = EMPTY_CHILDREN then \<lparr>getOrder = ord, rawChildren = EMPTY_CHILDREN\<rparr>
      else \<lparr>getOrder = ord, rawChildren = children\<rparr>)"

text \<open>
  \<open>deserialize\<close>. After the check of the count the loop runs at least once, so
  \<open>children\<close> is not \<open>null\<close> when the nested set is created.
\<close>

definition deserialize ::
  "'a codec_env \<Rightarrow> 'a jvm \<Rightarrow> byte list \<Rightarrow> (error + 'a NestedSet \<times> byte list) \<times> 'a jvm" where
  "deserialize ctx st codedIn =
     (if \<not> shouldSerializeNestedSet ctx
      then (Inr (\<lparr>getOrder = STABLE_ORDER, rawChildren = EMPTY_CHILDREN\<rparr>, codedIn), st)
      else (case readInt32 codedIn of
              Inl e \<Rightarrow> (Inl e, st)
            | Inr (nestedSetCount, codedIn1) \<Rightarrow>
                if \<not> nestedSetCount \<ge> 1 then (Inl IllegalState, st)
                else (case orderCodec_deserialize codedIn1 of
                        Inl e \<Rightarrow> (Inl e, st)
                      | Inr (ord, codedIn2) \<Rightarrow>
                          (case deserializeAll ctx (nat nestedSetCount) None st codedIn2 of
                             (Inl e, st') \<Rightarrow> (Inl e, st')
                           | (Inr (None, rest), st') \<Rightarrow> (Inl IllegalState, st')
                           | (Inr (Some children, rest), st') \<Rightarrow>
                               (Inr (createNestedSet ord children, rest), st')))))"

section \<open>Frames and what the reader builds from them\<close>

text \<open>
  These describe the two loops from outside. A payload round-trips when it is written
  without error and read back from the front of any stream that begins with its bytes. A
  node is well-formed when it is a nested set's: an array has at least two entries and
  fewer than \<open>2^31\<close>, and the payloads round-trip. \<open>frame_bodies\<close> are the bodies
  that \<open>serializeAll\<close> writes for a list of nodes, \<open>frame\<close> the bytes of one. \<open>intern\<close>
  is the effect of reading the frame of a node on the process: a new array whose entries
  are the nodes the map holds for the digests written, then \<open>putIfAbsent\<close>.
\<close>

definition roundtrips :: "'a codec_env \<Rightarrow> 'a \<Rightarrow> bool" where
  "roundtrips ctx p =
     (\<exists>bs. context_serialize ctx p = Inr bs
           \<and> (\<forall>rest. context_deserialize ctx (bs @ rest) = Inr (p, rest)))"

definition well_formed :: "'a codec_env \<Rightarrow> 'a heap \<Rightarrow> 'a obj \<Rightarrow> bool" where
  "well_formed ctx h c =
     (case c of
        Arr a \<Rightarrow> 2 \<le> length (h a) \<and> length (h a) < 2 ^ 31
                 \<and> (\<forall>e \<in> set (h a). case e of Elem p \<Rightarrow> roundtrips ctx p | _ \<Rightarrow> True)
      | Elem p \<Rightarrow> roundtrips ctx p
      | EMPTY_CHILDREN \<Rightarrow> True)"

definition frame :: "'a codec_env \<Rightarrow> byte list \<Rightarrow> byte list" where
  "frame ctx body = writeByteArrayNoTag (md5 ctx body) @ writeByteArrayNoTag body"

fun frame_bodies ::
  "'a codec_env \<Rightarrow> 'a heap \<Rightarrow> ('a obj \<rightharpoonup> byte list) \<Rightarrow> 'a obj list \<Rightarrow> byte list list" where
  "frame_bodies ctx h m [] = []"
| "frame_bodies ctx h m (c # cs) =
     (case serializeBody ctx h m c of
        Inl e \<Rightarrow> []
      | Inr body \<Rightarrow> body # frame_bodies ctx h (m(c \<mapsto> md5 ctx body)) cs)"

definition resolve :: "('a obj \<rightharpoonup> byte list) \<Rightarrow> (byte list \<rightharpoonup> 'a obj) \<Rightarrow> 'a obj \<Rightarrow> 'a obj" where
  "resolve m d2c e = (case e of Arr b \<Rightarrow> the (d2c (the (m e))) | _ \<Rightarrow> e)"

definition built :: "'a obj \<Rightarrow> 'a jvm \<Rightarrow> 'a obj" where
  "built c st = (case c of Arr a \<Rightarrow> Arr (nextAddr st) | _ \<Rightarrow> c)"

definition allocate :: "'a heap \<Rightarrow> ('a obj \<rightharpoonup> byte list) \<Rightarrow> 'a obj \<Rightarrow> 'a jvm \<Rightarrow> 'a jvm" where
  "allocate h m c st =
     (case c of
        Arr a \<Rightarrow> st\<lparr>heap := (heap st)(nextAddr st := map (resolve m (digestToChild st)) (h a)),
                    nextAddr := Suc (nextAddr st)\<rparr>
      | _ \<Rightarrow> st)"

definition intern ::
  "'a heap \<Rightarrow> ('a obj \<rightharpoonup> byte list) \<Rightarrow> 'a obj \<Rightarrow> byte list \<Rightarrow> 'a jvm \<Rightarrow> 'a obj \<times> 'a jvm" where
  "intern h m c digest st =
     (case digestToChild st digest of
        None \<Rightarrow> (built c st,
                 (allocate h m c st)\<lparr>digestToChild := (digestToChild st)(digest \<mapsto> built c st)\<rparr>)
      | Some old \<Rightarrow> (old, allocate h m c st))"

fun intern_all ::
  "'a codec_env \<Rightarrow> 'a heap \<Rightarrow> ('a obj \<rightharpoonup> byte list) \<Rightarrow> 'a obj list \<Rightarrow> 'a obj option \<Rightarrow> 'a jvm
     \<Rightarrow> 'a obj option \<times> 'a jvm" where
  "intern_all ctx h m [] prev st = (prev, st)"
| "intern_all ctx h m (c # cs) prev st =
     (case serializeBody ctx h m c of
        Inl e \<Rightarrow> (prev, st)
      | Inr body \<Rightarrow>
          (case intern h m c (md5 ctx body) st of
             (r, st') \<Rightarrow> intern_all ctx h (m(c \<mapsto> md5 ctx body)) cs (Some r) st'))"

text \<open>What the write table must give for the reader to find every reference.\<close>

definition resolvable :: "('a obj \<rightharpoonup> byte list) \<Rightarrow> (byte list \<rightharpoonup> 'a obj) \<Rightarrow> bool" where
  "resolvable m d2c = (\<forall>c d. m c = Some d \<longrightarrow> length d < 2 ^ 31 \<and> d2c d \<noteq> None)"

text \<open>
  Two states of the process agree on a set of digests when they hold the same arrays,
  the map of the first holds nothing that the map of the second does not, and under
  these digests the two maps hold the same.
\<close>

definition agree_on :: "byte list set \<Rightarrow> 'a jvm \<Rightarrow> 'a jvm \<Rightarrow> bool" where
  "agree_on K st1 st2 =
     (heap st1 = heap st2 \<and> nextAddr st1 = nextAddr st2
      \<and> digestToChild st1 \<subseteq>\<^sub>m digestToChild st2
      \<and> (\<forall>d \<in> K. digestToChild st1 d = digestToChild st2 d))"

section \<open>Copies\<close>

text \<open>
  \<open>written\<close> is what the writer puts for an entry: the digest of an array, or the entry
  itself. An object of the reader's process is a copy of a node of the written graph when
  it is the same element or sentinel, or an array already allocated whose entries are, in
  order, the elements of the node and, for its arrays, the nodes that the map holds under
  their digests. The process is consistent for a set of nodes when every array in the map
  is allocated and whatever the map holds under the digest of one of the nodes is a copy
  of it. \<open>describes\<close> collects what a table of digests says of the nodes: each is
  well-formed, its digest is the hash of its body, and no two of the bodies collide. The
  shape of an object is what remains when addresses are forgotten.
\<close>

definition written :: "('a obj \<rightharpoonup> byte list) \<Rightarrow> 'a obj \<Rightarrow> byte list + 'a obj" where
  "written m e = (case e of Arr b \<Rightarrow> Inl (the (m e)) | _ \<Rightarrow> Inr e)"

definition copy_of ::
  "'a heap \<Rightarrow> ('a obj \<rightharpoonup> byte list) \<Rightarrow> 'a jvm \<Rightarrow> 'a obj \<Rightarrow> 'a obj \<Rightarrow> bool" where
  "copy_of h m st c c' =
     (case c of
        Arr a \<Rightarrow> (\<exists>a'. c' = Arr a' \<and> a' < nextAddr st
                       \<and> heap st a' = map (resolve m (digestToChild st)) (h a)
                       \<and> (\<forall>e \<in> set (h a). case e of
                                                Arr b \<Rightarrow> digestToChild st (the (m e)) \<noteq> None
                                              | _ \<Rightarrow> True))
      | _ \<Rightarrow> c' = c)"

definition consistent ::
  "'a heap \<Rightarrow> ('a obj \<rightharpoonup> byte list) \<Rightarrow> 'a obj set \<Rightarrow> 'a jvm \<Rightarrow> bool" where
  "consistent h m S st =
     ((\<forall>k a. digestToChild st k = Some (Arr a) \<longrightarrow> a < nextAddr st)
      \<and> (\<forall>c \<in> S. \<forall>c'. digestToChild st (the (m c)) = Some c' \<longrightarrow> copy_of h m st c c'))"

definition describes ::
  "'a codec_env \<Rightarrow> 'a heap \<Rightarrow> ('a obj \<rightharpoonup> byte list) \<Rightarrow> 'a obj set \<Rightarrow> byte list set \<Rightarrow> bool" where
  "describes ctx h m S B =
     ((\<forall>c \<in> S. well_formed ctx h c
              \<and> (\<exists>body \<in> B. serializeBody ctx h m c = Inr body \<and> m c = Some (md5 ctx body)))
      \<and> inj_on (md5 ctx) B
      \<and> (\<forall>c d. m c = Some d \<longrightarrow> length d < 2 ^ 31))"

definition resolved :: "('a obj \<rightharpoonup> byte list) \<Rightarrow> (byte list \<rightharpoonup> 'a obj) \<Rightarrow> 'a obj list \<Rightarrow> bool" where
  "resolved m d2c es = (\<forall>e \<in> set es. case e of Arr b \<Rightarrow> d2c (the (m e)) \<noteq> None | _ \<Rightarrow> True)"

datatype 'a shape = EmptyShape | ElemShape 'a | ArrShape "'a shape list"

inductive unfolds :: "'a heap \<Rightarrow> 'a obj \<Rightarrow> 'a shape \<Rightarrow> bool" for h where
  "unfolds h EMPTY_CHILDREN EmptyShape"
| "unfolds h (Elem p) (ElemShape p)"
| "list_all2 (unfolds h) (h a) ts \<Longrightarrow> unfolds h (Arr a) (ArrShape ts)"

section \<open>A small instance\<close>

text \<open>
  Elements are numbers below 256, written as one byte each; the hash keeps the first
  sixteen bytes of its input, padded with zeros. The heap holds \<open>S = ["7", "8"]\<close> at
  address 1 and \<open>R = [S, S, "9"]\<close> at address 2.
\<close>

definition example_md5 :: "byte list \<Rightarrow> byte list" where
  "example_md5 bs = take 16 (bs @ [0, 0, 0, 0, 0, 0, 0, 0, 0, 0, 0, 0, 0, 0, 0, 0])"

definition example_serialize :: "nat \<Rightarrow> error + byte list" where
  "example_serialize p = (if p < 256 then Inr [of_nat p] else Inl PayloadError)"

definition example_deserialize :: "byte list \<Rightarrow> error + nat \<times> byte list" where
  "example_deserialize bs = (case bs of [] \<Rightarrow> Inl Malformed | b # rest \<Rightarrow> Inr (unat b, rest))"

definition example_env :: "nat codec_env" where
  "example_env =
     \<lparr>shouldSerializeNestedSet = True, md5 = example_md5,
      context_serialize = example_serialize, context_deserialize = example_deserialize\<rparr>"

definition example_heap :: "nat heap" where
  "example_heap = (\<lambda>a. [])(1 := [Elem 7, Elem 8], 2 := [Arr 1, Arr 1, Elem 9])"

definition fresh_jvm :: "nat jvm" where
  "fresh_jvm =
     \<lparr>heap = (\<lambda>a. []), nextAddr = 0, digestToChild = Map.empty, held = {}, collector = []\<rparr>"

text \<open>An array that holds itself.\<close>

definition cyclic_heap :: "nat heap" where
  "cyclic_heap = (\<lambda>a. [])(3 := [Arr 3, Elem 1])"

text \<open>
  The digests and frames of \<open>S\<close> and \<open>R\<close> under the small instance, the digest of the
  body of the empty set, and the process after a read of \<open>S\<close> alone.
\<close>

definition example_digest_S :: "byte list" where
  "example_digest_S = [2, 0, 7, 0, 8, 0, 0, 0, 0, 0, 0, 0, 0, 0, 0, 0]"

definition example_digest_R :: "byte list" where
  "example_digest_R = [3, 1, 16, 2, 0, 7, 0, 8, 0, 0, 0, 0, 0, 0, 0, 0]"

definition example_frame_S :: "byte list" where
  "example_frame_S = [16] @ example_digest_S @ [5, 2, 0, 7, 0, 8]"

definition example_frame_R :: "byte list" where
  "example_frame_R =
     [16] @ example_digest_R
       @ [39, 3] @ [1, 16] @ example_digest_S @ [1, 16] @ example_digest_S @ [0, 9]"

definition jvm_after_S :: "nat jvm" where
  "jvm_after_S =
     \<lparr>heap = (\<lambda>a. [])(0 := [Elem 7, Elem 8]), nextAddr = 1,
      digestToChild = [example_digest_S \<mapsto> Arr 0], held = {}, collector = []\<rparr>"

definition example_digest_empty :: "byte list" where
  "example_digest_empty = [0, 0, 0, 0, 0, 0, 0, 0, 0, 0, 0, 0, 0, 0, 0, 0]"

text \<open>Two digests that are the hash of nothing written here.\<close>

definition example_digest_X :: "byte list" where
  "example_digest_X = [88, 0, 0, 0, 0, 0, 0, 0, 0, 0, 0, 0, 0, 0, 0, 0]"

definition example_digest_Y :: "byte list" where
  "example_digest_Y = [89, 0, 0, 0, 0, 0, 0, 0, 0, 0, 0, 0, 0, 0, 0, 0]"

text \<open>
  The process after a read of \<open>S\<close>, and a fresh one, with collectors that are going to
  try, before the frames to come, entries under these two digests and no entry of \<open>S\<close> or
  of \<open>R\<close>.
\<close>

definition jvm_collecting :: "nat jvm" where
  "jvm_collecting = jvm_after_S\<lparr>collector := [{example_digest_X}, {example_digest_Y}]\<rparr>"

definition fresh_collecting :: "nat jvm" where
  "fresh_collecting = fresh_jvm\<lparr>collector := [{example_digest_Y}, {example_digest_X}]\<rparr>"


text \<open>
  The digest of the body of the single element 7, and a stream of three frames that
  declares the two digests for two copies of \<open>S\<close> and, under the digest of \<open>R\<close>, an array
  of these two copies.
\<close>

definition example_digest_leaf :: "byte list" where
  "example_digest_leaf = [1, 7, 0, 0, 0, 0, 0, 0, 0, 0, 0, 0, 0, 0, 0, 0]"

definition example_unshared :: "byte list" where
  "example_unshared =
     [3, 2]
       @ [16] @ example_digest_X @ [5, 2, 0, 7, 0, 8]
       @ [16] @ example_digest_Y @ [5, 2, 0, 7, 0, 8]
       @ [16] @ example_digest_R
       @ [39, 3] @ [1, 16] @ example_digest_X @ [1, 16] @ example_digest_Y @ [0, 9]"






section \<open>Evaluation on literals\<close>

lemma readRawVarint_numeral:
  "readRawVarint (numeral k) [] = Inl Malformed"
  "readRawVarint (numeral k) (b # bs) =
     (if unat b < 128 then Inr (unat b, bs)
      else (case readRawVarint (pred_numeral k) bs of
              Inl e \<Rightarrow> Inl e
            | Inr (v, rest) \<Rightarrow> Inr (unat b - 128 + 128 * v, rest)))"
  "readRawVarint 1 [] = Inl Malformed"
  "readRawVarint 1 (b # bs) = (if unat b < 128 then Inr (unat b, bs) else Inl Malformed)"
  by (simp_all add: numeral_eq_Suc)

lemma dfs_numeral:
  "dfs (numeral k) h sets children =
     (if children \<in> set sets then Some sets
      else (case children of
              Arr a \<Rightarrow> (case dfs_loop (dfs (pred_numeral k) h) sets (h a) of
                          None \<Rightarrow> None
                        | Some sets' \<Rightarrow> Some (add sets' children))
            | _ \<Rightarrow> Some (add sets children)))"
  "dfs 1 h sets children =
     (if children \<in> set sets then Some sets
      else (case children of
              Arr a \<Rightarrow> (case dfs_loop (dfs 0 h) sets (h a) of
                          None \<Rightarrow> None
                        | Some sets' \<Rightarrow> Some (add sets' children))
            | _ \<Rightarrow> Some (add sets children)))"
  by (simp_all add: numeral_eq_Suc)

lemma deserializeEntries_numeral:
  "deserializeEntries ctx d2c (numeral k) bs =
     (case readBool bs of
        Inl e \<Rightarrow> Inl e
      | Inr (isTransitiveEntry, bs1) \<Rightarrow>
          (case (if isTransitiveEntry
                 then (case readBytes bs1 of
                         Inl e \<Rightarrow> Inl e
                       | Inr (digest, bs2) \<Rightarrow>
                           (case d2c digest of
                              None \<Rightarrow> Inl TransitiveMissing
                            | Some child \<Rightarrow> Inr (child, bs2)))
                 else (case context_deserialize ctx bs1 of
                         Inl e \<Rightarrow> Inl e
                       | Inr (p, bs2) \<Rightarrow> Inr (Elem p, bs2))) of
             Inl e \<Rightarrow> Inl e
           | Inr (child, bs2) \<Rightarrow>
               (case deserializeEntries ctx d2c (pred_numeral k) bs2 of
                  Inl e \<Rightarrow> Inl e
                | Inr (children, bs3) \<Rightarrow> Inr (child # children, bs3))))"
  by (simp add: numeral_eq_Suc)

lemma deserializeAll_numeral:
  "deserializeAll ctx (numeral k) children st codedIn =
     (case deserializeOneNestedSet ctx (collect children st) codedIn of
        (Inl e, st') \<Rightarrow> (Inl e, st')
      | (Inr (children', codedIn'), st') \<Rightarrow>
          deserializeAll ctx (pred_numeral k) (Some children') st' codedIn')"
  "deserializeAll ctx 1 children st codedIn =
     (case deserializeOneNestedSet ctx (collect children st) codedIn of
        (Inl e, st') \<Rightarrow> (Inl e, st')
      | (Inr (children', codedIn'), st') \<Rightarrow> (Inr (Some children', codedIn'), st'))"
  by (simp_all add: numeral_eq_Suc split: prod.splits sum.splits)

lemmas read_eval =
  readInt32_def readRawVarint32_def readRawVarint64_def readRawVarint_numeral to_int32_def
  readBytes_def readBool_def orderCodec_deserialize_def

lemmas write_eval =
  writeInt32NoTag_def to_int32_def writeRawVarint.simps writeByteArrayNoTag_def
  writeBoolNoTag_def orderCodec_serialize_def

lemmas serialize_eval =
  serialize_def getTopologicallySortedChildren_def dfs_numeral add_def
  serializeOneNestedSet_def serializeMultiItemChildArray_def serializeSingleItemChildArray_def

lemmas deserialize_eval =
  deserialize_def deserializeAll_numeral collect_def deserializeOneNestedSet_def
  deserializeMultipleItemChildArray_def deserializeEntries_numeral putIfAbsent_def
  createNestedSet_def

lemmas example_eval =
  example_env_def example_md5_def example_serialize_def example_deserialize_def
  example_heap_def fresh_jvm_def

section \<open>Reading back what was written\<close>

lemma to_int32_id: "0 \<le> v \<Longrightarrow> v < 2 ^ 31 \<Longrightarrow> to_int32 v = v"
  by (simp add: to_int32_def)

lemma to_int32_idem: "to_int32 (to_int32 v) = to_int32 v"
  by (simp add: to_int32_def)

lemma to_int32_range: "- (2 ^ 31) \<le> to_int32 v \<and> to_int32 v < 2 ^ 31"
  unfolding to_int32_def
  using pos_mod_bound [of "2 ^ 32" "v + 2 ^ 31"] pos_mod_sign [of "2 ^ 32" "v + 2 ^ 31"]
  by simp

lemma to_int32_add_2_64: "to_int32 (v + 2 ^ 64) = to_int32 v"
proof -
  have "(v + 2 ^ 64 + 2 ^ 31) mod 2 ^ 32 = (v + 2 ^ 31 + 2 ^ 32 * 2 ^ 32) mod (2 ^ 32 :: int)"
    by simp
  also have "\<dots> = (v + 2 ^ 31) mod 2 ^ 32"
    by (rule mod_mult_self2)
  finally show ?thesis
    by (simp add: to_int32_def)
qed

lemma to_int32_add_2_64_numeral: "to_int32 (v + 18446744073709551616) = to_int32 v"
  using to_int32_add_2_64 [of v] by simp

lemma readRawVarint_writeRawVarint:
  "0 < k \<Longrightarrow> n < 128 ^ k \<Longrightarrow> readRawVarint k (writeRawVarint n @ rest) = Inr (n, rest)"
proof (induction k arbitrary: n)
  case 0
  then show ?case by simp
next
  case (Suc k)
  show ?case
  proof (cases "n < 128")
    case True
    then have "unat (of_nat n :: byte) = n"
      by (simp add: unat_of_nat)
    with True show ?thesis
      by (simp add: writeRawVarint.simps [of n])
  next
    case False
    have "n mod 128 + 128 < 2 ^ LENGTH(8)"
      by simp
    then have b: "unat (of_nat (n mod 128 + 128) :: byte) = n mod 128 + 128"
      by (intro of_nat_inverse [OF refl])
    from False Suc.prems have d: "n div 128 < 128 ^ k"
      by (simp add: less_mult_imp_div_less mult.commute)
    from False have "0 < n div 128"
      by (simp add: div_greater_zero_iff)
    with d have "0 < k"
      by (cases k) auto
    then have "readRawVarint k (writeRawVarint (n div 128) @ rest) = Inr (n div 128, rest)"
      using d by (rule Suc.IH)
    with False b show ?thesis
      by (simp add: writeRawVarint.simps [of n])
  qed
qed

lemma readRawVarint64_writeRawVarint:
  assumes "n < 2 ^ 64"
  shows "readRawVarint64 (writeRawVarint n @ rest) = Inr (n, rest)"
proof -
  have "(2::nat) ^ 64 \<le> 128 ^ 10" by simp
  with assms have "n < 128 ^ 10" by (rule less_le_trans)
  then have "readRawVarint 10 (writeRawVarint n @ rest) = Inr (n, rest)"
    by (intro readRawVarint_writeRawVarint) simp_all
  with assms show ?thesis
    by (simp add: readRawVarint64_def)
qed

lemma readInt32_writeInt32NoTag:
  "readInt32 (writeInt32NoTag v @ rest) = Inr (to_int32 v, rest)"
proof (cases "0 \<le> to_int32 v")
  case True
  have "to_int32 v < 2 ^ 31" using to_int32_range [of v] by simp
  with True have "nat (to_int32 v) < 2 ^ 64" by simp
  then show ?thesis
    using True
    by (simp add: readInt32_def readRawVarint32_def writeInt32NoTag_def
        readRawVarint64_writeRawVarint to_int32_idem)
next
  case False
  have r: "- (2 ^ 31) \<le> to_int32 v" using to_int32_range [of v] by simp
  with False have "nat (to_int32 v + 2 ^ 64) < 2 ^ 64" by simp
  moreover from r have "int (nat (to_int32 v + 2 ^ 64)) = to_int32 v + 2 ^ 64" by simp
  ultimately show ?thesis
    using False
    by (simp add: readInt32_def readRawVarint32_def writeInt32NoTag_def
        readRawVarint64_writeRawVarint to_int32_add_2_64_numeral to_int32_idem)
qed

lemma readInt32_write_length:
  "n < 2 ^ 31 \<Longrightarrow> readInt32 (writeInt32NoTag (int n) @ rest) = Inr (int n, rest)"
  by (simp add: readInt32_writeInt32NoTag to_int32_id)

lemma readBytes_writeByteArrayNoTag:
  assumes "length bs < 2 ^ 31"
  shows "readBytes (writeByteArrayNoTag bs @ rest) = Inr (bs, rest)"
proof -
  from assms have m: "length bs mod 2 ^ 32 = length bs" by simp
  from assms have "length bs < 2 ^ 64" by simp
  then have "readRawVarint64 (writeRawVarint (length bs) @ bs @ rest) = Inr (length bs, bs @ rest)"
    by (rule readRawVarint64_writeRawVarint)
  moreover from assms have "to_int32 (int (length bs)) = int (length bs)"
    by (simp add: to_int32_id)
  ultimately show ?thesis
    unfolding writeByteArrayNoTag_def m
    by (simp add: readBytes_def readRawVarint32_def)
qed

lemma readBool_writeBoolNoTag: "readBool (writeBoolNoTag b @ rest) = Inr (b, rest)"
  by (simp add: readBool_def readRawVarint64_def writeBoolNoTag_def readRawVarint_numeral)

lemma orderCodec_roundtrip:
  "orderCodec_deserialize (orderCodec_serialize ord @ rest) = Inr (ord, rest)"
proof -
  have "readRawVarint32 (writeInt32NoTag (ordinal ord) @ rest) = Inr (ordinal ord, rest)"
    using readInt32_writeInt32NoTag [of "ordinal ord" rest]
    by (cases ord) (simp_all add: readInt32_def to_int32_def)
  then show ?thesis
    by (cases ord) (simp_all add: orderCodec_deserialize_def orderCodec_serialize_def)
qed

section \<open>Reachability and the sort\<close>

lemma refs_iff: "(c, d) \<in> refs h \<longleftrightarrow> (\<exists>a b. c = Arr a \<and> d = Arr b \<and> Arr b \<in> set (h a))"
  by (auto simp: refs_def)

lemma reach_refl: "c \<in> reach h c"
  by (simp add: reach_def)

lemma reach_step: "Arr b \<in> set (h a) \<Longrightarrow> reach h (Arr b) \<subseteq> reach h (Arr a)"
proof
  fix x
  assume "Arr b \<in> set (h a)" and "x \<in> reach h (Arr b)"
  then have "(Arr a, Arr b) \<in> refs h" and "(Arr b, x) \<in> (refs h)\<^sup>*"
    by (auto simp: refs_iff reach_def)
  then show "x \<in> reach h (Arr a)"
    unfolding reach_def by (simp add: converse_rtrancl_into_rtrancl)
qed

lemma reach_trans: "d \<in> reach h c \<Longrightarrow> reach h d \<subseteq> reach h c"
  by (auto simp: reach_def)

lemma reach_not_Arr: "\<forall>a. c \<noteq> Arr a \<Longrightarrow> reach h c = {c}"
  by (auto simp: reach_def refs_iff elim: converse_rtranclE)

lemma reach_Arr: "reach h (Arr a) = insert (Arr a) (\<Union>e \<in> {e \<in> set (h a). \<exists>b. e = Arr b}. reach h e)"
proof -
  have "d \<in> insert (Arr a) (\<Union>e \<in> {e \<in> set (h a). \<exists>b. e = Arr b}. reach h e)"
    if "d \<in> reach h (Arr a)" for d
  proof -
    from that have "(Arr a, d) \<in> (refs h)\<^sup>*" by (simp add: reach_def)
    then show ?thesis
    proof (cases rule: converse_rtranclE)
      case base
      then show ?thesis by simp
    next
      case (step y)
      then show ?thesis by (auto simp: refs_iff reach_def)
    qed
  qed
  moreover have "d \<in> reach h (Arr a)"
    if "d \<in> insert (Arr a) (\<Union>e \<in> {e \<in> set (h a). \<exists>b. e = Arr b}. reach h e)" for d
    using that reach_step [of _ h a] by (auto simp: reach_refl)
  ultimately show ?thesis by blast
qed

text \<open>What \<open>dfs\<close> adds is reachable from where it starts.\<close>

lemma dfs_loop_subset:
  assumes "\<And>sets c sets'. rec sets c = Some sets' \<Longrightarrow> set sets' \<subseteq> set sets \<union> reach h c"
    and "dfs_loop rec sets es = Some sets'"
  shows "set sets' \<subseteq> set sets \<union> (\<Union>e \<in> {e \<in> set es. \<exists>b. e = Arr b}. reach h e)"
  using assms(2)
proof (induction es arbitrary: sets)
  case Nil
  then show ?case by simp
next
  case (Cons e es)
  show ?case
  proof (cases e)
    case (Arr b)
    with Cons.prems obtain s1 where s1: "rec sets e = Some s1" and l: "dfs_loop rec s1 es = Some sets'"
      by (auto split: option.splits)
    from assms(1) [OF s1] Cons.IH [OF l] Arr show ?thesis
      by auto
  next
    case EMPTY_CHILDREN
    with Cons show ?thesis by auto
  next
    case (Elem p)
    with Cons show ?thesis by auto
  qed
qed

lemma dfs_subset: "dfs n h sets c = Some sets' \<Longrightarrow> set sets' \<subseteq> set sets \<union> reach h c"
proof (induction n arbitrary: sets c sets')
  case 0
  then show ?case by simp
next
  case (Suc n)
  show ?case
  proof (cases "c \<in> set sets")
    case True
    with Suc.prems show ?thesis by simp
  next
    case False
    show ?thesis
    proof (cases c)
      case (Arr a)
      with Suc.prems False obtain s1 where l: "dfs_loop (dfs n h) sets (h a) = Some s1"
        and s: "sets' = add s1 c"
        by (auto split: option.splits)
      from dfs_loop_subset [OF Suc.IH l]
      have "set s1 \<subseteq> set sets \<union> (\<Union>e \<in> {e \<in> set (h a). \<exists>b. e = Arr b}. reach h e)"
        by simp
      with s Arr show ?thesis
        by (auto simp: add_def reach_Arr)
    next
      case EMPTY_CHILDREN
      with Suc.prems False show ?thesis by (auto simp: add_def reach_refl)
    next
      case (Elem p)
      with Suc.prems False show ?thesis by (auto simp: add_def reach_refl)
    qed
  qed
qed

lemma cyclic_from_child:
  assumes "cyclic_from h c"
  shows "\<exists>a b. c = Arr a \<and> Arr b \<in> set (h a) \<and> cyclic_from h (Arr b)"
proof -
  from assms obtain d where d: "(c, d) \<in> (refs h)\<^sup>*" and cyc: "(d, d) \<in> (refs h)\<^sup>+"
    by (auto simp: cyclic_from_def reach_def)
  from d show ?thesis
  proof (cases rule: converse_rtranclE)
    case base
    from cyc obtain y where y: "(d, y) \<in> refs h" and yd: "(y, d) \<in> (refs h)\<^sup>*"
      by (meson tranclD)
    then show ?thesis
      using base cyc by (auto simp: refs_iff cyclic_from_def reach_def)
  next
    case (step y)
    then show ?thesis
      using cyc by (auto simp: refs_iff cyclic_from_def reach_def)
  qed
qed

lemma cyclic_from_reach: "d \<in> reach h c \<Longrightarrow> cyclic_from h d \<Longrightarrow> cyclic_from h c"
  using reach_trans [of d h c] by (auto simp: cyclic_from_def)

lemma dfs_loop_cycle:
  assumes rec_none: "\<And>sets c. cyclic_from h c \<Longrightarrow> \<forall>s \<in> set sets. \<not> cyclic_from h s
                        \<Longrightarrow> rec sets c = None"
    and rec_sub: "\<And>sets c sets'. rec sets c = Some sets' \<Longrightarrow> set sets' \<subseteq> set sets \<union> reach h c"
    and "\<exists>e \<in> set es. cyclic_from h e"
    and "\<forall>s \<in> set sets. \<not> cyclic_from h s"
  shows "dfs_loop rec sets es = None"
  using assms(3,4)
proof (induction es arbitrary: sets)
  case Nil
  then show ?case by simp
next
  case (Cons e es)
  show ?case
  proof (cases "cyclic_from h e")
    case True
    then obtain b where "e = Arr b"
      using cyclic_from_child by blast
    with True Cons.prems(2) rec_none show ?thesis by simp
  next
    case False
    with Cons.prems(1) have rest: "\<exists>e \<in> set es. cyclic_from h e" by auto
    show ?thesis
    proof (cases e)
      case (Arr b)
      show ?thesis
      proof (cases "rec sets e")
        case None
        with Arr show ?thesis by simp
      next
        case (Some s1)
        from rec_sub [OF Some] False Cons.prems(2)
        have "\<forall>s \<in> set s1. \<not> cyclic_from h s"
          using cyclic_from_reach by blast
        from Cons.IH [OF rest this] Some Arr show ?thesis by simp
      qed
    next
      case EMPTY_CHILDREN
      with Cons.IH [OF rest Cons.prems(2)] show ?thesis by simp
    next
      case (Elem p)
      with Cons.IH [OF rest Cons.prems(2)] show ?thesis by simp
    qed
  qed
qed

lemma dfs_cycle:
  "cyclic_from h c \<Longrightarrow> \<forall>s \<in> set sets. \<not> cyclic_from h s \<Longrightarrow> dfs n h sets c = None"
proof (induction n arbitrary: sets c)
  case 0
  then show ?case by simp
next
  case (Suc n)
  from Suc.prems have notin: "c \<notin> set sets" by auto
  from Suc.prems(1) obtain a b where c: "c = Arr a" and b: "Arr b \<in> set (h a)"
    and bad: "cyclic_from h (Arr b)"
    using cyclic_from_child by blast
  have "dfs_loop (dfs n h) sets (h a) = None"
  proof (rule dfs_loop_cycle)
    show "\<exists>e \<in> set (h a). cyclic_from h e" using b bad by blast
    show "\<forall>s \<in> set sets. \<not> cyclic_from h s" by (rule Suc.prems(2))
  qed (auto intro: Suc.IH dest: dfs_subset)
  with notin c show ?case by simp
qed

lemma topological_append:
  "topological h seen (xs @ ys) \<longleftrightarrow> topological h seen xs \<and> topological h (seen @ xs) ys"
  by (induction xs arbitrary: seen) auto

lemma topological_refs:
  "topological h seen xs \<Longrightarrow> c \<in> set xs \<Longrightarrow> (c, d) \<in> refs h \<Longrightarrow> d \<in> set seen \<union> set xs"
proof (induction xs arbitrary: seen)
  case Nil
  then show ?case by simp
next
  case (Cons x xs)
  show ?case
  proof (cases "c = x")
    case True
    from Cons.prems(3) obtain a b where "c = Arr a" "d = Arr b" "Arr b \<in> set (h a)"
      by (auto simp: refs_iff)
    with True Cons.prems(1) show ?thesis
      by (auto split: obj.splits)
  next
    case False
    with Cons.prems have "c \<in> set xs" and "topological h (seen @ [x]) xs"
      by auto
    from Cons.IH [OF this(2) this(1) Cons.prems(3)] show ?thesis
      by auto
  qed
qed

lemma topological_closed:
  assumes "topological h [] xs" and "c \<in> set xs"
  shows "reach h c \<subseteq> set xs"
proof
  fix d
  assume "d \<in> reach h c"
  then have "(c, d) \<in> (refs h)\<^sup>*"
    by (simp add: reach_def)
  then show "d \<in> set xs"
    using assms(2)
  proof (induction rule: rtrancl_induct)
    case base
    then show ?case .
  next
    case (step y z)
    with topological_refs [OF assms(1), of y z] show ?case
      by simp
  qed
qed

lemma acyclic_from_no_cycle:
  assumes "acyclic_from h root" and "c \<in> reach h root"
  shows "(c, c) \<notin> (refs h)\<^sup>+"
proof
  let ?R = "{(child, parent). parent \<in> reach h root \<and> (parent, child) \<in> refs h}"
  have "(d, c) \<in> ?R\<^sup>+ \<and> d \<in> reach h root" if "(c, d) \<in> (refs h)\<^sup>+" for d
    using that
  proof (induction rule: trancl_induct)
    case (base y)
    with assms(2) show ?case
      by (auto simp: reach_def)
  next
    case (step y z)
    then have "(y, c) \<in> ?R\<^sup>+" and y: "y \<in> reach h root"
      by auto
    moreover from y step.hyps(2) have "(z, y) \<in> ?R" and "z \<in> reach h root"
      by (auto simp: reach_def)
    ultimately show ?case
      by (auto intro: trancl_into_trancl2)
  qed
  moreover assume "(c, c) \<in> (refs h)\<^sup>+"
  ultimately have "(c, c) \<in> ?R\<^sup>+"
    by blast
  moreover from assms(1) have "wf (?R\<^sup>+)"
    unfolding acyclic_from_def by (rule wf_trancl)
  ultimately show False
    by auto
qed

lemma dfs_loop_acyclic:
  assumes ih: "\<And>e sets. e \<in> set es \<Longrightarrow> \<exists>b. e = Arr b \<Longrightarrow> sorted_set h sets \<Longrightarrow>
                 \<exists>n sets'. (\<forall>m \<ge> n. dfs m h sets e = Some sets') \<and> dfs_post h sets e sets'"
    and "sorted_set h sets"
  shows "\<exists>n sets'. (\<forall>m \<ge> n. dfs_loop (dfs m h) sets es = Some sets') \<and> sorted_set h sets'
           \<and> set sets' = set sets \<union> (\<Union>e \<in> {e \<in> set es. \<exists>b. e = Arr b}. reach h e)"
  using assms
proof (induction es arbitrary: sets)
  case Nil
  then show ?case
    by (intro exI [of _ 0] exI [of _ sets]) simp
next
  case (Cons e es)
  have rest: "\<exists>n sets'. (\<forall>m \<ge> n. dfs_loop (dfs m h) s es = Some sets') \<and> sorted_set h sets'
           \<and> set sets' = set s \<union> (\<Union>e \<in> {e \<in> set es. \<exists>b. e = Arr b}. reach h e)"
    if "sorted_set h s" for s
    using Cons.IH [OF _ that] Cons.prems(1) by simp
  show ?case
  proof (cases e)
    case (Arr b)
    with Cons.prems obtain n1 s1 where n1: "\<forall>m \<ge> n1. dfs m h sets e = Some s1"
      and p1: "dfs_post h sets e s1"
      by (metis list.set_intros(1))
    from p1 have "sorted_set h s1" by (simp add: dfs_post_def)
    from rest [OF this] obtain n2 s2 where n2: "\<forall>m \<ge> n2. dfs_loop (dfs m h) s1 es = Some s2"
      and s2: "sorted_set h s2"
      and set2: "set s2 = set s1 \<union> (\<Union>e \<in> {e \<in> set es. \<exists>b. e = Arr b}. reach h e)"
      by blast
    have "\<forall>m \<ge> max n1 n2. dfs_loop (dfs m h) sets (e # es) = Some s2"
      using n1 n2 Arr by simp
    moreover from p1 set2 Arr
    have "set s2 = set sets \<union> (\<Union>e \<in> {x \<in> set (e # es). \<exists>b. x = Arr b}. reach h e)"
      by (auto simp: dfs_post_def)
    ultimately show ?thesis
      using s2 by blast
  next
    case EMPTY_CHILDREN
    then have eq: "{x \<in> set (e # es). \<exists>b. x = Arr b} = {x \<in> set es. \<exists>b. x = Arr b}"
      by auto
    from rest [OF Cons.prems(2)] EMPTY_CHILDREN show ?thesis
      unfolding eq by simp
  next
    case (Elem p)
    then have eq: "{x \<in> set (e # es). \<exists>b. x = Arr b} = {x \<in> set es. \<exists>b. x = Arr b}"
      by auto
    from rest [OF Cons.prems(2)] Elem show ?thesis
      unfolding eq by simp
  qed
qed

lemma dfs_acyclic:
  assumes "acyclic_from h root"
  shows "c \<in> reach h root \<Longrightarrow> sorted_set h sets \<Longrightarrow>
           \<exists>n sets'. (\<forall>m \<ge> n. dfs m h sets c = Some sets') \<and> dfs_post h sets c sets'"
  using assms [unfolded acyclic_from_def]
proof (induction c arbitrary: sets rule: wf_induct_rule)
  case (less c)
  show ?case
  proof (cases "c \<in> set sets")
    case True
    with less.prems(2) have "reach h c \<subseteq> set sets"
      by (auto simp: sorted_set_def dest: topological_closed)
    with True less.prems(2) have "dfs_post h sets c sets"
      by (auto simp: dfs_post_def)
    moreover from True have "\<forall>m \<ge> 1. dfs m h sets c = Some sets"
      by (auto simp: Suc_le_eq gr0_conv_Suc)
    ultimately show ?thesis by blast
  next
    case False
    show ?thesis
    proof (cases c)
      case (Arr a)
      have "\<exists>n sets'. (\<forall>m \<ge> n. dfs m h s e = Some sets') \<and> dfs_post h s e sets'"
        if "e \<in> set (h a)" "\<exists>b. e = Arr b" "sorted_set h s" for e s
      proof (rule less.IH)
        from that Arr less.prems(1) show "(e, c) \<in> {(child, parent). parent \<in> reach h root \<and> (parent, child) \<in> refs h}"
          by (auto simp: refs_iff)
        from that Arr less.prems(1) show "e \<in> reach h root"
          using reach_step [of _ h a] reach_trans [of c h root] reach_refl [of e h] by blast
        show "sorted_set h s" by fact
      qed
      from dfs_loop_acyclic [OF this less.prems(2)]
      obtain n s1 where n: "\<forall>m \<ge> n. dfs_loop (dfs m h) sets (h a) = Some s1"
        and s1: "sorted_set h s1"
        and set1: "set s1 = set sets \<union> (\<Union>e \<in> {e \<in> set (h a). \<exists>b. e = Arr b}. reach h e)"
        by blast
      have "c \<notin> reach h e" if "e \<in> set (h a)" "\<exists>b. e = Arr b" for e
      proof
        assume "c \<in> reach h e"
        with that Arr have "(c, e) \<in> refs h" and "(e, c) \<in> (refs h)\<^sup>*"
          by (auto simp: refs_iff reach_def)
        then have "(c, c) \<in> (refs h)\<^sup>+"
          by (rule rtrancl_into_trancl2)
        with acyclic_from_no_cycle [OF assms less.prems(1)] show False
          by simp
      qed
      with False set1 have notin: "c \<notin> set s1"
        by auto
      have children_in: "\<forall>e \<in> set (h a). case e of Arr b \<Rightarrow> e \<in> set s1 | _ \<Rightarrow> True"
        using set1 reach_refl by (fastforce split: obj.splits)
      have "\<forall>m \<ge> Suc n. dfs m h sets c = Some (s1 @ [c])"
      proof (intro allI impI)
        fix m
        assume "Suc n \<le> m"
        then obtain m' where "m = Suc m'" and "n \<le> m'"
          by (cases m) auto
        with n False notin Arr show "dfs m h sets c = Some (s1 @ [c])"
          by (simp add: add_def)
      qed
      moreover have "dfs_post h sets c (s1 @ [c])"
        using s1 notin children_in set1 Arr
        by (auto simp: dfs_post_def sorted_set_def topological_append reach_Arr [of h a])
      ultimately show ?thesis by blast
    next
      case EMPTY_CHILDREN
      with False have "\<forall>m \<ge> 1. dfs m h sets c = Some (sets @ [c])"
        by (auto simp: Suc_le_eq gr0_conv_Suc add_def)
      moreover from EMPTY_CHILDREN False less.prems(2) have "dfs_post h sets c (sets @ [c])"
        by (auto simp: dfs_post_def sorted_set_def topological_append reach_not_Arr)
      ultimately show ?thesis by blast
    next
      case (Elem p)
      with False have "\<forall>m \<ge> 1. dfs m h sets c = Some (sets @ [c])"
        by (auto simp: Suc_le_eq gr0_conv_Suc add_def)
      moreover from Elem False less.prems(2) have "dfs_post h sets c (sets @ [c])"
        by (auto simp: dfs_post_def sorted_set_def topological_append reach_not_Arr)
      ultimately show ?thesis by blast
    qed
  qed
qed


lemma example_heap_refs: "refs example_heap = {(Arr 2, Arr 1)}"
  by (auto simp: refs_def example_heap_def split: if_splits)

lemma example_heap_acyclic: "acyclic_from example_heap c"
proof -
  have "{(child, parent). parent \<in> reach example_heap c \<and> (parent, child) \<in> refs example_heap}
          \<subseteq> measure (\<lambda>x. case x of Arr a \<Rightarrow> a | _ \<Rightarrow> 0)"
    by (auto simp: example_heap_refs)
  then show ?thesis
    unfolding acyclic_from_def by (rule wf_subset [OF wf_measure])
qed

section \<open>A frame only adds to the map\<close>

lemma deserializeOneNestedSet_map_le:
  "deserializeOneNestedSet ctx st codedIn = (r, st') \<Longrightarrow> digestToChild st \<subseteq>\<^sub>m digestToChild st'"
  by (auto simp: deserializeOneNestedSet_def deserializeMultipleItemChildArray_def putIfAbsent_def
      map_le_def
      split: sum.splits prod.splits if_splits option.splits)

lemmas frame_eval =
  example_digest_S_def example_digest_R_def example_frame_S_def example_frame_R_def
  jvm_after_S_def example_digest_empty_def

lemma serialize_example:
  "serialize 2 example_env example_heap \<lparr>getOrder = LINK_ORDER, rawChildren = Arr 2\<rparr>
     = Some (Inr ([2, 2] @ example_frame_S @ example_frame_R))"
  by (simp add: serialize_eval write_eval example_eval frame_eval)

section \<open>Reading the frames that were written\<close>

lemma entries_roundtrip:
  assumes "serializeEntries ctx m es = Inr bs"
    and "\<forall>e \<in> set es. case e of Elem p \<Rightarrow> roundtrips ctx p | _ \<Rightarrow> True"
    and "resolvable m d2c"
  shows "deserializeEntries ctx d2c (length es) (bs @ rest) = Inr (map (resolve m d2c) es, rest)"
  using assms(1,2)
proof (induction es arbitrary: bs)
  case Nil
  then show ?case by simp
next
  case (Cons e es)
  from Cons.prems(1) obtain b1 bs' where b1: "bs = b1 @ bs'"
    and rest': "serializeEntries ctx m es = Inr bs'"
    and e: "(case e of
              Arr b \<Rightarrow> (case m e of
                          None \<Rightarrow> Inl DigestNotAvailable
                        | Some digest \<Rightarrow> Inr (writeBoolNoTag True @ writeByteArrayNoTag digest))
            | Elem p \<Rightarrow> (case context_serialize ctx p of
                           Inl e \<Rightarrow> Inl e
                         | Inr bs \<Rightarrow> Inr (writeBoolNoTag False @ bs))
            | EMPTY_CHILDREN \<Rightarrow> Inl PayloadError) = Inr b1"
    by (auto split: sum.splits)
  from Cons.IH [OF rest'] Cons.prems(2)
  have ih: "deserializeEntries ctx d2c (length es) (bs' @ rest) = Inr (map (resolve m d2c) es, rest)"
    by simp
  show ?case
  proof (cases e)
    case EMPTY_CHILDREN
    with e show ?thesis by simp
  next
    case (Elem p)
    with e obtain pb where pb: "context_serialize ctx p = Inr pb" and b1': "b1 = writeBoolNoTag False @ pb"
      by (auto split: sum.splits)
    from Cons.prems(2) Elem pb have "context_deserialize ctx (pb @ bs' @ rest) = Inr (p, bs' @ rest)"
      by (auto simp: roundtrips_def)
    with ih show ?thesis
      by (simp add: b1 b1' Elem readBool_writeBoolNoTag resolve_def)
  next
    case (Arr b)
    with e obtain d where d: "m e = Some d" and b1': "b1 = writeBoolNoTag True @ writeByteArrayNoTag d"
      by (auto split: option.splits)
    from assms(3) d obtain o' where len: "length d < 2 ^ 31" and o': "d2c d = Some o'"
      by (auto simp: resolvable_def)
    from len have "readBytes (writeByteArrayNoTag d @ bs' @ rest) = Inr (d, bs' @ rest)"
      by (rule readBytes_writeByteArrayNoTag)
    with ih d o' show ?thesis
      by (simp add: b1 b1' Arr readBool_writeBoolNoTag resolve_def)
  qed
qed

text \<open>
  The same for any table: the entries are read exactly when the table holds every digest
  that is referred to, and each reference is then the node the table holds.
\<close>

lemma entries_resolved:
  assumes "serializeEntries ctx m es = Inr bs"
    and "\<forall>e \<in> set es. case e of Elem p \<Rightarrow> roundtrips ctx p
                           | Arr b \<Rightarrow> length (the (m e)) < 2 ^ 31
                           | EMPTY_CHILDREN \<Rightarrow> True"
  shows "deserializeEntries ctx d2c (length es) (bs @ rest) =
           (if \<exists>b. Arr b \<in> set es \<and> d2c (the (m (Arr b))) = None then Inl TransitiveMissing
            else Inr (map (resolve m d2c) es, rest))"
  using assms
proof (induction es arbitrary: bs)
  case Nil
  then show ?case by simp
next
  case (Cons e es)
  from Cons.prems(1) obtain b1 bs' where b1: "bs = b1 @ bs'"
    and rest': "serializeEntries ctx m es = Inr bs'"
    and e: "(case e of
              Arr b \<Rightarrow> (case m e of
                          None \<Rightarrow> Inl DigestNotAvailable
                        | Some digest \<Rightarrow> Inr (writeBoolNoTag True @ writeByteArrayNoTag digest))
            | Elem p \<Rightarrow> (case context_serialize ctx p of
                           Inl e \<Rightarrow> Inl e
                         | Inr bs \<Rightarrow> Inr (writeBoolNoTag False @ bs))
            | EMPTY_CHILDREN \<Rightarrow> Inl PayloadError) = Inr b1"
    by (auto split: sum.splits)
  from Cons.prems(2) have "\<forall>e \<in> set es. case e of Elem p \<Rightarrow> roundtrips ctx p
                           | Arr b \<Rightarrow> length (the (m e)) < 2 ^ 31
                           | EMPTY_CHILDREN \<Rightarrow> True"
    by simp
  with rest'
  have ih: "deserializeEntries ctx d2c (length es) (bs' @ rest) =
              (if \<exists>b. Arr b \<in> set es \<and> d2c (the (m (Arr b))) = None then Inl TransitiveMissing
               else Inr (map (resolve m d2c) es, rest))"
    by (rule Cons.IH)
  show ?case
  proof (cases e)
    case EMPTY_CHILDREN
    with e show ?thesis by simp
  next
    case (Elem p)
    with e obtain pb where pb: "context_serialize ctx p = Inr pb" and b1': "b1 = writeBoolNoTag False @ pb"
      by (auto split: sum.splits)
    from Cons.prems(2) Elem pb have "context_deserialize ctx (pb @ bs' @ rest) = Inr (p, bs' @ rest)"
      by (auto simp: roundtrips_def)
    with ih show ?thesis
      by (simp add: b1 b1' Elem readBool_writeBoolNoTag resolve_def)
  next
    case (Arr b)
    with e obtain d where d: "m (Arr b) = Some d" and b1': "b1 = writeBoolNoTag True @ writeByteArrayNoTag d"
      by (auto split: option.splits)
    from Cons.prems(2) Arr d have "length d < 2 ^ 31"
      by simp
    then have rb: "readBytes (writeByteArrayNoTag d @ bs' @ rest) = Inr (d, bs' @ rest)"
      by (rule readBytes_writeByteArrayNoTag)
    show ?thesis
    proof (cases "d2c d")
      case None
      with d have "\<exists>b. Arr b \<in> set (e # es) \<and> d2c (the (m (Arr b))) = None"
        using Arr by auto
      with None rb show ?thesis
        by (simp add: b1 b1' readBool_writeBoolNoTag)
    next
      case (Some child)
      with d Arr have "(\<exists>b. Arr b \<in> set (e # es) \<and> d2c (the (m (Arr b))) = None)
          \<longleftrightarrow> (\<exists>b. Arr b \<in> set es \<and> d2c (the (m (Arr b))) = None)"
        by auto
      with Some rb ih d Arr show ?thesis
        by (simp add: b1 b1' readBool_writeBoolNoTag resolve_def)
    qed
  qed
qed

text \<open>A frame of the loop is read in the state that the frames before it leave.\<close>

lemma deserializeAll_add:
  "deserializeAll ctx (j + Suc l) children st codedIn =
     (case deserializeAll ctx j children st codedIn of
        (Inl e, st') \<Rightarrow> (Inl e, st')
      | (Inr (prev, codedIn'), st') \<Rightarrow>
          (case deserializeOneNestedSet ctx (collect prev st') codedIn' of
             (Inl e, st'') \<Rightarrow> (Inl e, st'')
           | (Inr (c, codedIn''), st'') \<Rightarrow> deserializeAll ctx l (Some c) st'' codedIn''))"
proof (induction j arbitrary: children st codedIn)
  case 0
  show ?case
    by simp
next
  case (Suc j)
  show ?case
  proof (cases "deserializeOneNestedSet ctx (collect children st) codedIn")
    case (Pair r st1)
    show ?thesis
    proof (cases r)
      case (Inl e)
      with Pair show ?thesis by simp
    next
      case (Inr x)
      obtain c bs where x: "x = (c, bs)" by (cases x)
      have "deserializeAll ctx (Suc j + Suc l) children st codedIn
              = deserializeAll ctx (j + Suc l) (Some c) st1 bs"
        using Pair Inr x by simp
      also have "\<dots> = (case deserializeAll ctx j (Some c) st1 bs of
          (Inl e, st') \<Rightarrow> (Inl e, st')
        | (Inr (prev, codedIn'), st') \<Rightarrow>
            (case deserializeOneNestedSet ctx (collect prev st') codedIn' of
               (Inl e, st'') \<Rightarrow> (Inl e, st'')
             | (Inr (c, codedIn''), st'') \<Rightarrow> deserializeAll ctx l (Some c) st'' codedIn''))"
        by (rule Suc.IH)
      also have "deserializeAll ctx j (Some c) st1 bs = deserializeAll ctx (Suc j) children st codedIn"
        using Pair Inr x by simp
      finally show ?thesis .
    qed
  qed
qed

lemma frame_roundtrip:
  assumes body: "serializeBody ctx h m c = Inr body"
    and sizes: "length body < 2 ^ 31" "length (md5 ctx body) < 2 ^ 31"
    and wf: "well_formed ctx h c"
    and res: "resolvable m (digestToChild st)"
  shows "deserializeOneNestedSet ctx st (frame ctx body @ rest)
           = (Inr (fst (intern h m c (md5 ctx body) st), rest), snd (intern h m c (md5 ctx body) st))"
proof -
  have rd: "readBytes (writeByteArrayNoTag (md5 ctx body) @ writeByteArrayNoTag body @ rest)
              = Inr (md5 ctx body, writeByteArrayNoTag body @ rest)"
    using sizes(2) by (rule readBytes_writeByteArrayNoTag)
  have rb: "readBytes (writeByteArrayNoTag body @ rest) = Inr (body, rest)"
    using sizes(1) by (rule readBytes_writeByteArrayNoTag)
  show ?thesis
  proof (cases c)
    case EMPTY_CHILDREN
    with body have "body = writeInt32NoTag 0" by simp
    then have "readInt32 body = Inr (0, [])"
      using readInt32_write_length [of 0 "[]"] by simp
    with EMPTY_CHILDREN show ?thesis
      by (simp add: deserializeOneNestedSet_def frame_def rd rb putIfAbsent_def intern_def built_def allocate_def
          split: option.splits)
  next
    case (Elem p)
    with body obtain pb where pb: "context_serialize ctx p = Inr pb" and b: "body = writeInt32NoTag 1 @ pb"
      by (auto simp: serializeSingleItemChildArray_def split: sum.splits)
    from b have k: "readInt32 body = Inr (1, pb)"
      using readInt32_write_length [of 1 pb] by simp
    from wf Elem pb have "context_deserialize ctx pb = Inr (p, [])"
      by (auto simp: well_formed_def roundtrips_def dest: spec [of _ "[]"])
    with Elem k show ?thesis
      by (simp add: deserializeOneNestedSet_def frame_def rd rb putIfAbsent_def intern_def built_def allocate_def
          split: option.splits)
  next
    case (Arr a)
    with body obtain eb where eb: "serializeEntries ctx m (h a) = Inr eb"
      and b: "body = writeInt32NoTag (int (length (h a))) @ eb"
      by (auto simp: serializeMultiItemChildArray_def split: sum.splits)
    from wf Arr have len: "2 \<le> length (h a)" "length (h a) < 2 ^ 31"
      and pl: "\<forall>e \<in> set (h a). case e of Elem p \<Rightarrow> roundtrips ctx p | _ \<Rightarrow> True"
      by (auto simp: well_formed_def)
    from b len(2) have k: "readInt32 body = Inr (int (length (h a)), eb)"
      by (simp add: readInt32_write_length)
    from entries_roundtrip [OF eb pl res, of "[]"]
    have "deserializeEntries ctx (digestToChild st) (length (h a)) eb
            = Inr (map (resolve m (digestToChild st)) (h a), [])"
      by simp
    with Arr k len(1) show ?thesis
      by (simp add: deserializeOneNestedSet_def frame_def rd rb putIfAbsent_def intern_def built_def allocate_def
          deserializeMultipleItemChildArray_def split: option.splits)
  qed
qed

lemma intern_digestToChild:
  "digestToChild (snd (intern h m c d st)) =
     (case digestToChild st d of
        None \<Rightarrow> (digestToChild st)(d \<mapsto> built c st)
      | Some old \<Rightarrow> digestToChild st)"
  by (auto simp: intern_def allocate_def split: option.splits obj.splits)

lemma intern_result:
  "digestToChild (snd (intern h m c d st)) d = Some (fst (intern h m c d st))"
  by (auto simp: intern_def allocate_def split: option.splits obj.splits)

lemma intern_map_le: "digestToChild st \<subseteq>\<^sub>m digestToChild (snd (intern h m c d st))"
  by (auto simp: intern_digestToChild map_le_def split: option.splits)

lemma resolvable_step:
  assumes "resolvable m (digestToChild st)" and "length d < 2 ^ 31"
  shows "resolvable (m(c \<mapsto> d)) (digestToChild (snd (intern h m c d st)))"
  using assms
  by (auto simp: resolvable_def intern_digestToChild split: option.splits)

lemma serializeAll_frames:
  "serializeAll ctx h cs (out, m) = Inr (out', m') \<Longrightarrow>
     out' = out @ concat (map (frame ctx) (frame_bodies ctx h m cs))
     \<and> length (frame_bodies ctx h m cs) = length cs"
proof (induction cs arbitrary: out m)
  case Nil
  then show ?case by simp
next
  case (Cons c cs)
  from Cons.prems obtain body where body: "serializeBody ctx h m c = Inr body"
    and rest: "serializeAll ctx h cs (out @ frame ctx body, m(c \<mapsto> md5 ctx body)) = Inr (out', m')"
    by (auto simp: serializeOneNestedSet_def frame_def split: sum.splits)
  have "out' = (out @ frame ctx body) @ concat (map (frame ctx) (frame_bodies ctx h (m(c \<mapsto> md5 ctx body)) cs))
     \<and> length (frame_bodies ctx h (m(c \<mapsto> md5 ctx body)) cs) = length cs"
    using rest by (rule Cons.IH)
  with body show ?case
    by simp
qed

lemma serializeEntries_defined:
  "serializeEntries ctx m es = Inr bs \<Longrightarrow> e \<in> set es \<Longrightarrow>
     (case e of Arr b \<Rightarrow> m e \<noteq> None | Elem p \<Rightarrow> True | EMPTY_CHILDREN \<Rightarrow> False)"
proof (induction es arbitrary: bs)
  case Nil
  then show ?case by simp
next
  case (Cons x es)
  from Cons.prems(1) obtain bs' where rest: "serializeEntries ctx m es = Inr bs'"
    and x: "case x of Arr b \<Rightarrow> m x \<noteq> None | Elem p \<Rightarrow> True | EMPTY_CHILDREN \<Rightarrow> False"
    by (auto split: sum.splits obj.splits option.splits)
  show ?case
  proof (cases "e = x")
    case True
    from x show ?thesis unfolding True .
  next
    case False
    with Cons.prems(2) have "e \<in> set es" by simp
    with rest show ?thesis by (rule Cons.IH)
  qed
qed

text \<open>
  A run of the collector that leaves the digests of a set alone keeps the process in
  agreement on that set with one in which nothing is cleared, and so does a frame.
\<close>

lemma collect_fields [simp]:
  "heap (collect prev st) = heap st" "nextAddr (collect prev st) = nextAddr st"
  "held (collect prev st) = held st"
  by (cases "collector st"; simp add: collect_def)+

lemma collect_collector: "set (collector (collect prev st)) \<subseteq> set (collector st)"
  by (cases "collector st") (auto simp: collect_def)

lemma collect_lookup:
  "digestToChild (collect prev st) d = None
   \<or> digestToChild (collect prev st) d = digestToChild st d"
  by (cases "collector st"; cases "digestToChild st d"; simp add: collect_def)

lemma collect_keep:
  assumes "\<forall>ks \<in> set (collector st). d \<notin> ks"
  shows "digestToChild (collect prev st) d = digestToChild st d"
proof (cases "collector st")
  case Nil
  then show ?thesis by (simp add: collect_def)
next
  case (Cons ks later)
  with assms have "d \<notin> ks" by simp
  with Cons show ?thesis
    by (cases "digestToChild st d") (simp_all add: collect_def)
qed

lemma collect_agree:
  assumes "agree_on K st1 st2" and "\<forall>ks \<in> set (collector st1). ks \<inter> K = {}"
  shows "agree_on K (collect prev st1) st2"
proof -
  have le: "digestToChild (collect prev st1) \<subseteq>\<^sub>m digestToChild st2"
    unfolding map_le_def
  proof
    fix d assume "d \<in> dom (digestToChild (collect prev st1))"
    with collect_lookup [of prev st1 d]
    have "digestToChild (collect prev st1) d = digestToChild st1 d" "d \<in> dom (digestToChild st1)"
      by auto
    moreover from assms(1) have "digestToChild st1 \<subseteq>\<^sub>m digestToChild st2"
      by (simp add: agree_on_def)
    ultimately show "digestToChild (collect prev st1) d = digestToChild st2 d"
      by (simp add: map_le_def)
  qed
  have eq: "\<forall>d \<in> K. digestToChild (collect prev st1) d = digestToChild st2 d"
  proof
    fix d assume d: "d \<in> K"
    with assms(2) have "\<forall>ks \<in> set (collector st1). d \<notin> ks"
      by blast
    then have "digestToChild (collect prev st1) d = digestToChild st1 d"
      by (rule collect_keep)
    with assms(1) d show "digestToChild (collect prev st1) d = digestToChild st2 d"
      by (simp add: agree_on_def)
  qed
  from assms(1) le eq show ?thesis
    by (simp add: agree_on_def)
qed

lemma intern_agree:
  assumes ag: "agree_on K st1 st2" and d: "d \<in> K"
    and es: "\<And>a b. c = Arr a \<Longrightarrow> Arr b \<in> set (h a) \<Longrightarrow> the (m (Arr b)) \<in> K"
  shows "fst (intern h m c d st1) = fst (intern h m c d st2)"
    and "agree_on K (snd (intern h m c d st1)) (snd (intern h m c d st2))"
    and "collector (snd (intern h m c d st1)) = collector st1"
proof -
  from ag have hp: "heap st1 = heap st2" and na: "nextAddr st1 = nextAddr st2"
    and le: "digestToChild st1 \<subseteq>\<^sub>m digestToChild st2"
    and eq: "\<forall>d \<in> K. digestToChild st1 d = digestToChild st2 d"
    by (simp_all add: agree_on_def)
  have rs: "map (resolve m (digestToChild st1)) (h a) = map (resolve m (digestToChild st2)) (h a)"
    if "c = Arr a" for a
  proof (rule map_cong [OF refl])
    fix e assume e: "e \<in> set (h a)"
    show "resolve m (digestToChild st1) e = resolve m (digestToChild st2) e"
    proof (cases e)
      case (Arr b)
      with es [OF that] e have "the (m (Arr b)) \<in> K" by simp
      with eq Arr show ?thesis by (simp add: resolve_def)
    qed (simp_all add: resolve_def)
  qed
  have b: "built c st1 = built c st2"
    using na by (cases c) (simp_all add: built_def)
  have al1: "heap (allocate h m c st1) = heap (allocate h m c st2)"
  proof (cases c)
    case (Arr a)
    then show ?thesis by (simp add: allocate_def hp na rs [OF Arr])
  qed (simp_all add: allocate_def hp)
  have al2: "nextAddr (allocate h m c st1) = nextAddr (allocate h m c st2)"
    using na by (cases c) (simp_all add: allocate_def)
  have al3: "digestToChild (allocate h m c st) = digestToChild st"
    "collector (allocate h m c st) = collector st" for st
    by (cases c; simp add: allocate_def)+
  from eq d have same: "digestToChild st1 d = digestToChild st2 d"
    by simp
  show "fst (intern h m c d st1) = fst (intern h m c d st2)"
    using same b by (simp add: intern_def split: option.splits)
  show "collector (snd (intern h m c d st1)) = collector st1"
    using al3(2) [of st1] by (simp add: intern_def split: option.splits)
  show "agree_on K (snd (intern h m c d st1)) (snd (intern h m c d st2))"
  proof (cases "digestToChild st2 d")
    case None
    with same have n1: "digestToChild st1 d = None" by simp
    from le have "(digestToChild st1)(d \<mapsto> built c st2) \<subseteq>\<^sub>m (digestToChild st2)(d \<mapsto> built c st2)"
      by (simp add: map_le_def)
    with None n1 b al1 al2 al3 eq show ?thesis
      by (simp add: intern_def agree_on_def)
  next
    case (Some old)
    with same have "digestToChild st1 d = Some old" by simp
    with Some al1 al2 al3 le eq show ?thesis
      by (simp add: intern_def agree_on_def)
  qed
qed

lemma ran_upd_subset: "ran m \<subseteq> K \<Longrightarrow> d \<in> K \<Longrightarrow> ran (m(c \<mapsto> d)) \<subseteq> K"
  by (auto simp: ran_def split: if_splits)

text \<open>
  Reading the frames that were written, in a process whose collector leaves their digests
  alone, gives the nodes that the same frames give when nothing is cleared.
\<close>

lemma deserializeAll_frames:
  assumes "serializeAll ctx h cs (out, m) = Inr (out', m')"
    and "\<forall>c \<in> set cs. well_formed ctx h c"
    and "\<forall>b \<in> set (frame_bodies ctx h m cs). length b < 2 ^ 31 \<and> length (md5 ctx b) < 2 ^ 31"
    and "resolvable m (digestToChild st2)"
    and "agree_on K st1 st2"
    and "ran m \<subseteq> K"
    and "md5 ctx ` set (frame_bodies ctx h m cs) \<subseteq> K"
    and "\<forall>ks \<in> set (collector st1). ks \<inter> K = {}"
  shows "\<exists>st1'. deserializeAll ctx (length cs) prev st1
                  (concat (map (frame ctx) (frame_bodies ctx h m cs)) @ rest)
                = (Inr (fst (intern_all ctx h m cs prev st2), rest), st1')
              \<and> agree_on K st1' (snd (intern_all ctx h m cs prev st2))
              \<and> set (collector st1') \<subseteq> set (collector st1)"
  using assms
proof (induction cs arbitrary: out m prev st1 st2)
  case Nil
  then show ?case by simp
next
  case (Cons c cs)
  from Cons.prems(1) obtain body where body: "serializeBody ctx h m c = Inr body"
    and rest: "serializeAll ctx h cs (out @ frame ctx body, m(c \<mapsto> md5 ctx body)) = Inr (out', m')"
    by (auto simp: serializeOneNestedSet_def frame_def split: sum.splits)
  let ?d = "md5 ctx body"
  let ?m1 = "m(c \<mapsto> ?d)"
  let ?more = "concat (map (frame ctx) (frame_bodies ctx h ?m1 cs)) @ rest"
  let ?s1 = "collect prev st1"
  from Cons.prems(3) body have sizes: "length body < 2 ^ 31" "length ?d < 2 ^ 31"
    and sizes': "\<forall>b \<in> set (frame_bodies ctx h ?m1 cs). length b < 2 ^ 31 \<and> length (md5 ctx b) < 2 ^ 31"
    by simp_all
  from Cons.prems(2) have wf: "well_formed ctx h c" and wf': "\<forall>c \<in> set cs. well_formed ctx h c"
    by simp_all
  from Cons.prems(7) body have dK: "?d \<in> K"
    and K': "md5 ctx ` set (frame_bodies ctx h ?m1 cs) \<subseteq> K"
    by simp_all
  have ag1: "agree_on K ?s1 st2"
    using Cons.prems(5,8) by (rule collect_agree)
  have col1: "set (collector ?s1) \<subseteq> set (collector st1)"
    by (rule collect_collector)
  have res1: "resolvable m (digestToChild ?s1)"
    unfolding resolvable_def
  proof (intro allI impI)
    fix x d assume md: "m x = Some d"
    with Cons.prems(6) have "d \<in> K"
      by (auto simp: ran_def)
    with ag1 have "digestToChild ?s1 d = digestToChild st2 d"
      by (simp add: agree_on_def)
    with Cons.prems(4) md show "length d < 2 ^ 31 \<and> digestToChild ?s1 d \<noteq> None"
      by (simp add: resolvable_def)
  qed
  have es: "the (m (Arr b)) \<in> K" if "c = Arr a" "Arr b \<in> set (h a)" for a b
  proof -
    from body that(1) obtain eb where "serializeEntries ctx m (h a) = Inr eb"
      by (auto simp: serializeMultiItemChildArray_def split: sum.splits)
    from serializeEntries_defined [OF this that(2)] have "m (Arr b) \<noteq> None"
      by simp
    with Cons.prems(6) show ?thesis
      by (auto simp: ran_def)
  qed
  note ia = intern_agree [where h = h and m = m and c = c, OF ag1 dK es]
  obtain r st2' where i2: "intern h m c ?d st2 = (r, st2')"
    by (cases "intern h m c ?d st2")
  obtain r1 st1' where i1: "intern h m c ?d ?s1 = (r1, st1')"
    by (cases "intern h m c ?d ?s1")
  from ia i1 i2 have r1: "r1 = r" and ag2: "agree_on K st1' st2'"
    and col2: "collector st1' = collector ?s1"
    by simp_all
  from frame_roundtrip [OF body sizes wf res1, of ?more] i1 r1
  have one: "deserializeOneNestedSet ctx ?s1 (frame ctx body @ ?more) = (Inr (r, ?more), st1')"
    by simp
  from resolvable_step [OF Cons.prems(4) sizes(2), of c h] i2
  have res': "resolvable ?m1 (digestToChild st2')"
    by simp
  have ran': "ran ?m1 \<subseteq> K"
    using Cons.prems(6) dK by (rule ran_upd_subset)
  from col1 col2 Cons.prems(8) have gc': "\<forall>ks \<in> set (collector st1'). ks \<inter> K = {}"
    by auto
  have "\<exists>st1''. deserializeAll ctx (length cs) (Some r) st1' ?more
                 = (Inr (fst (intern_all ctx h ?m1 cs (Some r) st2'), rest), st1'')
               \<and> agree_on K st1'' (snd (intern_all ctx h ?m1 cs (Some r) st2'))
               \<and> set (collector st1'') \<subseteq> set (collector st1')"
    using rest wf' sizes' res' ag2 ran' K' gc' by (rule Cons.IH)
  then obtain st1'' where
    all: "deserializeAll ctx (length cs) (Some r) st1' ?more
            = (Inr (fst (intern_all ctx h ?m1 cs (Some r) st2'), rest), st1'')"
    and ag3: "agree_on K st1'' (snd (intern_all ctx h ?m1 cs (Some r) st2'))"
    and col3: "set (collector st1'') \<subseteq> set (collector st1')"
    by blast
  from one all body i2 have "deserializeAll ctx (length (c # cs)) prev st1
        (concat (map (frame ctx) (frame_bodies ctx h m (c # cs))) @ rest)
      = (Inr (fst (intern_all ctx h m (c # cs) prev st2), rest), st1'')"
    by simp
  moreover from ag3 body i2 have "agree_on K st1'' (snd (intern_all ctx h m (c # cs) prev st2))"
    by simp
  moreover from col1 col2 col3 have "set (collector st1'') \<subseteq> set (collector st1)"
    by auto
  ultimately show ?case
    by blast
qed

lemma dfs_loop_mono:
  assumes "\<And>sets c x. rec sets c = Some x \<Longrightarrow> rec' sets c = Some x"
  shows "dfs_loop rec sets es = Some x \<Longrightarrow> dfs_loop rec' sets es = Some x"
proof (induction es arbitrary: sets)
  case Nil
  then show ?case by simp
next
  case (Cons e es)
  then show ?case
    by (cases e) (auto split: option.splits dest: assms)
qed

lemma dfs_Suc: "dfs n h sets c = Some x \<Longrightarrow> dfs (Suc n) h sets c = Some x"
proof (induction n arbitrary: sets c x)
  case 0
  then show ?case by simp
next
  case (Suc n)
  have "dfs_loop (dfs (Suc n) h) s es = Some y" if "dfs_loop (dfs n h) s es = Some y" for s es y
    using that by (rule dfs_loop_mono [rotated]) (rule Suc.IH)
  with Suc.prems show ?case
    by (auto split: if_splits obj.splits option.splits)
qed

lemma dfs_mono:
  assumes "dfs n h sets c = Some x" and "n \<le> m"
  shows "dfs m h sets c = Some x"
  using assms(2)
proof (induction rule: dec_induct)
  case base
  show ?case by (rule assms(1))
next
  case (step k)
  then show ?case by (simp only: dfs_Suc)
qed

lemma dfs_loop_sorted:
  assumes rec: "\<And>sets c sets'. sorted_set h sets \<Longrightarrow> rec sets c = Some sets' \<Longrightarrow>
                  sorted_set h sets' \<and> c \<in> set sets' \<and> set sets \<subseteq> set sets'"
    and "sorted_set h sets" and "dfs_loop rec sets es = Some sets'"
  shows "sorted_set h sets' \<and> set sets \<subseteq> set sets'
           \<and> (\<forall>e \<in> set es. case e of Arr b \<Rightarrow> e \<in> set sets' | _ \<Rightarrow> True)"
  using assms(2,3)
proof (induction es arbitrary: sets)
  case Nil
  then show ?case by simp
next
  case (Cons e es)
  show ?case
  proof (cases e)
    case (Arr b)
    with Cons.prems obtain s1 where s1: "rec sets e = Some s1" and l: "dfs_loop rec s1 es = Some sets'"
      by (auto split: option.splits)
    from rec [OF Cons.prems(1) s1] have a: "sorted_set h s1" "e \<in> set s1" "set sets \<subseteq> set s1"
      by auto
    from Cons.IH [OF a(1) l] a Arr show ?thesis
      by auto
  next
    case EMPTY_CHILDREN
    with Cons show ?thesis by auto
  next
    case (Elem p)
    with Cons show ?thesis by auto
  qed
qed

lemma dfs_sorted:
  "sorted_set h sets \<Longrightarrow> dfs n h sets c = Some sets' \<Longrightarrow>
     sorted_set h sets' \<and> c \<in> set sets' \<and> set sets \<subseteq> set sets'"
proof (induction n arbitrary: sets c sets')
  case 0
  then show ?case by simp
next
  case (Suc n)
  show ?case
  proof (cases "c \<in> set sets")
    case True
    with Suc.prems show ?thesis by simp
  next
    case False
    have leaf: ?thesis if "\<forall>a. c \<noteq> Arr a"
    proof -
      from that False Suc.prems(2) have s: "sets' = sets @ [c]"
        by (cases c) (simp_all add: add_def)
      from that have "topological h sets [c]"
        by (cases c) simp_all
      moreover from s have "set sets \<subseteq> set sets'" and "c \<in> set sets'"
        by auto
      ultimately show ?thesis
        using Suc.prems(1) s False
        by (simp add: sorted_set_def topological_append del: topological.simps)
    qed
    show ?thesis
    proof (cases c)
      case (Arr a)
      with Suc.prems(2) False obtain s1 where l: "dfs_loop (dfs n h) sets (h a) = Some s1"
        and s: "sets' = add s1 c"
        by (auto split: option.splits)
      have "sorted_set h s1 \<and> set sets \<subseteq> set s1
              \<and> (\<forall>e \<in> set (h a). case e of Arr b \<Rightarrow> e \<in> set s1 | _ \<Rightarrow> True)"
      proof (rule dfs_loop_sorted [where rec = "dfs n h"])
        show "sorted_set h sets" by (rule Suc.prems(1))
        show "dfs_loop (dfs n h) sets (h a) = Some s1" by (rule l)
      qed (rule Suc.IH)
      then have s1: "sorted_set h s1" "set sets \<subseteq> set s1"
        and ch: "\<forall>e \<in> set (h a). case e of Arr b \<Rightarrow> e \<in> set s1 | _ \<Rightarrow> True"
        by simp_all
      show ?thesis
      proof (cases "c \<in> set s1")
        case True
        with s s1 show ?thesis by (simp add: add_def)
      next
        case notin: False
        from ch Arr have "topological h s1 [c]"
          by simp
        moreover from s s1(2) notin have "set sets \<subseteq> set sets'" and "c \<in> set sets'"
          by (auto simp: add_def)
        ultimately show ?thesis
          using s s1(1) notin
          by (simp add: add_def sorted_set_def topological_append del: topological.simps)
      qed
    next
      case EMPTY_CHILDREN
      then show ?thesis by (intro leaf) simp
    next
      case (Elem p)
      then show ?thesis by (intro leaf) simp
    qed
  qed
qed

lemma dfs_root_last:
  assumes "dfs n h [] c = Some topo"
  shows "topo \<noteq> [] \<and> last topo = c"
proof (cases n)
  case 0
  with assms show ?thesis by simp
next
  case (Suc n')
  show ?thesis
  proof (cases c)
    case (Arr a)
    with assms Suc obtain s1 where l: "dfs_loop (dfs n' h) [] (h a) = Some s1"
      and s: "topo = add s1 c"
      by (auto split: option.splits)
    have "c \<notin> set s1"
    proof
      assume "c \<in> set s1"
      moreover have "set s1 \<subseteq> set [] \<union> (\<Union>e \<in> {e \<in> set (h a). \<exists>b. e = Arr b}. reach h e)"
        by (rule dfs_loop_subset [OF _ l]) (rule dfs_subset)
      ultimately obtain e b where e: "e \<in> set (h a)" "e = Arr b" "c \<in> reach h e"
        by auto
      with Arr have "(c, e) \<in> refs h" and "(e, c) \<in> (refs h)\<^sup>*"
        by (auto simp: refs_iff reach_def)
      then have "(c, c) \<in> (refs h)\<^sup>+"
        by (rule rtrancl_into_trancl2)
      then have "cyclic_from h c"
        using reach_refl [of c h] by (auto simp: cyclic_from_def)
      then have "dfs n h [] c = None"
        by (rule dfs_cycle) simp
      with assms show False by simp
    qed
    with s show ?thesis
      by (simp add: add_def)
  next
    case EMPTY_CHILDREN
    with assms Suc show ?thesis by (auto simp: add_def)
  next
    case (Elem p)
    with assms Suc show ?thesis by (auto simp: add_def)
  qed
qed

lemma sorted_children:
  assumes "getTopologicallySortedChildren n h nestedSet = Some topo"
  shows "distinct topo" and "topological h [] topo"
    and "topo \<noteq> [] " and "last topo = rawChildren nestedSet"
proof -
  from assms have d: "dfs n h [] (rawChildren nestedSet) = Some topo"
    by (simp add: getTopologicallySortedChildren_def)
  have "sorted_set h []"
    by (simp add: sorted_set_def)
  from dfs_sorted [OF this d] show "distinct topo" and "topological h [] topo"
    by (simp_all add: sorted_set_def)
  from dfs_root_last [OF d] show "topo \<noteq> []" and "last topo = rawChildren nestedSet"
    by simp_all
qed


lemma intern_all_last:
  assumes "serializeAll ctx h cs (out, m) = Inr (out', m')" and "cs \<noteq> []"
  shows "\<exists>d r. m' (last cs) = Some d \<and> fst (intern_all ctx h m cs prev st) = Some r
           \<and> digestToChild (snd (intern_all ctx h m cs prev st)) d = Some r
           \<and> d \<in> md5 ctx ` set (frame_bodies ctx h m cs)"
  using assms
proof (induction cs arbitrary: out m prev st)
  case Nil
  then show ?case by simp
next
  case (Cons c cs)
  from Cons.prems(1) obtain body where body: "serializeBody ctx h m c = Inr body"
    and rest: "serializeAll ctx h cs (out @ frame ctx body, m(c \<mapsto> md5 ctx body)) = Inr (out', m')"
    by (auto simp: serializeOneNestedSet_def frame_def split: sum.splits)
  obtain r st' where i: "intern h m c (md5 ctx body) st = (r, st')"
    by (cases "intern h m c (md5 ctx body) st")
  show ?case
  proof (cases "cs = []")
    case True
    with rest have "m' = m(c \<mapsto> md5 ctx body)" by simp
    moreover from intern_result [of h m c "md5 ctx body" st] i
    have "digestToChild st' (md5 ctx body) = Some r" by simp
    ultimately show ?thesis
      using True body i by simp
  next
    case False
    have "\<exists>d r'. m' (last cs) = Some d
            \<and> fst (intern_all ctx h (m(c \<mapsto> md5 ctx body)) cs (Some r) st') = Some r'
            \<and> digestToChild (snd (intern_all ctx h (m(c \<mapsto> md5 ctx body)) cs (Some r) st')) d = Some r'
            \<and> d \<in> md5 ctx ` set (frame_bodies ctx h (m(c \<mapsto> md5 ctx body)) cs)"
      using rest False by (rule Cons.IH)
    with False body i show ?thesis by simp blast
  qed
qed

lemma rawChildren_createNestedSet [simp]:
  "rawChildren (createNestedSet ord c) = c" "getOrder (createNestedSet ord c) = ord"
  by (simp_all add: createNestedSet_def)


lemma resolvable_empty: "resolvable Map.empty d2c"
  by (simp add: resolvable_def)

lemma agree_on_refl: "agree_on K st st"
  by (simp add: agree_on_def)


lemma deserialize_written:
  assumes on: "shouldSerializeNestedSet ctx"
    and ser: "serializeAll ctx h topo
                (writeInt32NoTag (int (length topo)) @ orderCodec_serialize ord, Map.empty)
              = Inr (bytes, m')"
    and ne: "topo \<noteq> []"
    and len: "length topo < 2 ^ 31"
    and wf: "\<forall>c \<in> set topo. well_formed ctx h c"
    and sizes: "\<forall>b \<in> set (frame_bodies ctx h Map.empty topo).
                  length b < 2 ^ 31 \<and> length (md5 ctx b) < 2 ^ 31"
    and gc: "\<forall>ks \<in> set (collector st).
               ks \<inter> md5 ctx ` set (frame_bodies ctx h Map.empty topo) = {}"
  shows "\<exists>d r st'. m' (last topo) = Some d
           \<and> d \<in> md5 ctx ` set (frame_bodies ctx h Map.empty topo)
           \<and> fst (intern_all ctx h Map.empty topo None st) = Some r
           \<and> digestToChild (snd (intern_all ctx h Map.empty topo None st)) d = Some r
           \<and> deserialize ctx st (bytes @ rest) = (Inr (createNestedSet ord r, rest), st')
           \<and> agree_on (md5 ctx ` set (frame_bodies ctx h Map.empty topo)) st'
                (snd (intern_all ctx h Map.empty topo None st))
           \<and> set (collector st') \<subseteq> set (collector st)"
proof -
  let ?K = "md5 ctx ` set (frame_bodies ctx h Map.empty topo)"
  let ?frames = "concat (map (frame ctx) (frame_bodies ctx h Map.empty topo))"
  let ?st2 = "snd (intern_all ctx h Map.empty topo None st)"
  from serializeAll_frames [OF ser]
  have bytes: "bytes = writeInt32NoTag (int (length topo)) @ orderCodec_serialize ord @ ?frames"
    by simp
  from intern_all_last [OF ser ne, where prev = None and st = st] obtain d r where d: "m' (last topo) = Some d"
    and r: "fst (intern_all ctx h Map.empty topo None st) = Some r"
    and dr: "digestToChild ?st2 d = Some r"
    and dK: "d \<in> ?K"
    by blast
  have count: "readInt32 (bytes @ rest)
                 = Inr (int (length topo), orderCodec_serialize ord @ ?frames @ rest)"
    using readInt32_write_length [OF len] by (simp add: bytes)
  have "ran (Map.empty :: 'a obj \<rightharpoonup> byte list) \<subseteq> ?K"
    by simp
  from deserializeAll_frames [OF ser wf sizes resolvable_empty agree_on_refl this subset_refl gc,
      where prev = None and rest = rest] r
  obtain st' where all: "deserializeAll ctx (length topo) None st (?frames @ rest)
               = (Inr (Some r, rest), st')"
    and ag: "agree_on ?K st' ?st2"
    and col: "set (collector st') \<subseteq> set (collector st)"
    by auto
  from ne have "1 \<le> int (length topo)"
    by (cases topo) simp_all
  with on count all have "deserialize ctx st (bytes @ rest) = (Inr (createNestedSet ord r, rest), st')"
    by (simp add: deserialize_def orderCodec_roundtrip)
  with d r dr dK ag col show ?thesis
    by blast
qed

lemma example_roundtrips: "p < 256 \<Longrightarrow> roundtrips example_env p"
  by (simp add: roundtrips_def example_env_def example_serialize_def example_deserialize_def
      unat_of_nat)

lemma example_topo:
  "getTopologicallySortedChildren 2 example_heap \<lparr>getOrder = LINK_ORDER, rawChildren = Arr 2\<rparr>
     = Some [Arr 1, Arr 2]"
  by (simp add: getTopologicallySortedChildren_def dfs_numeral add_def example_heap_def)

lemma example_well_formed: "\<forall>c \<in> set [Arr 1, Arr 2]. well_formed example_env example_heap c"
  by (simp add: well_formed_def example_heap_def example_roundtrips)

lemma example_frame_bodies:
  "frame_bodies example_env example_heap Map.empty [Arr 1, Arr 2]
     = [[2, 0, 7, 0, 8], [3, 1, 16] @ example_digest_S @ [1, 16] @ example_digest_S @ [0, 9]]"
  by (simp add: serializeMultiItemChildArray_def write_eval example_eval frame_eval)

lemma example_sizes:
  "\<forall>b \<in> set (frame_bodies example_env example_heap Map.empty [Arr 1, Arr 2]).
     length b < 2 ^ 31 \<and> length (md5 example_env b) < 2 ^ 31"
  unfolding example_frame_bodies
  by (simp add: example_env_def example_md5_def example_digest_S_def)

section \<open>The reader's process stays consistent\<close>

lemma resolve_written:
  "resolve m d2c e = (case written m e of Inl d \<Rightarrow> the (d2c d) | Inr x \<Rightarrow> x)"
  by (simp add: resolve_def written_def split: obj.splits)

lemma serializeEntries_cong:
  "serializeEntries ctx m es = Inr bs \<Longrightarrow> m \<subseteq>\<^sub>m m2 \<Longrightarrow> serializeEntries ctx m2 es = Inr bs"
proof (induction es arbitrary: bs)
  case Nil
  then show ?case by simp
next
  case (Cons x es)
  from Cons.prems(1) obtain b1 bs' where rest: "serializeEntries ctx m es = Inr bs'"
    and bs: "bs = b1 @ bs'"
    and x: "(case x of
              Arr b \<Rightarrow> (case m x of
                          None \<Rightarrow> Inl DigestNotAvailable
                        | Some digest \<Rightarrow> Inr (writeBoolNoTag True @ writeByteArrayNoTag digest))
            | Elem p \<Rightarrow> (case context_serialize ctx p of
                           Inl e \<Rightarrow> Inl e
                         | Inr bs \<Rightarrow> Inr (writeBoolNoTag False @ bs))
            | EMPTY_CHILDREN \<Rightarrow> Inl PayloadError) = Inr b1"
    by (auto split: sum.splits)
  have ih: "serializeEntries ctx m2 es = Inr bs'"
    using rest Cons.prems(2) by (rule Cons.IH)
  have "(case x of
              Arr b \<Rightarrow> (case m2 x of
                          None \<Rightarrow> Inl DigestNotAvailable
                        | Some digest \<Rightarrow> Inr (writeBoolNoTag True @ writeByteArrayNoTag digest))
            | Elem p \<Rightarrow> (case context_serialize ctx p of
                           Inl e \<Rightarrow> Inl e
                         | Inr bs \<Rightarrow> Inr (writeBoolNoTag False @ bs))
            | EMPTY_CHILDREN \<Rightarrow> Inl PayloadError) = Inr b1"
  proof (cases x)
    case (Arr b)
    with x obtain d where d: "m x = Some d"
      by (auto split: option.splits)
    with Cons.prems(2) have "m2 x = Some d"
      by (auto simp: map_le_def dom_def)
    with x d Arr show ?thesis by simp
  qed (use x in simp_all)
  with ih bs show ?case by simp
qed

lemma serializeBody_cong:
  "serializeBody ctx h m c = Inr body \<Longrightarrow> m \<subseteq>\<^sub>m m2 \<Longrightarrow> serializeBody ctx h m2 c = Inr body"
  by (cases c)
    (auto simp: serializeMultiItemChildArray_def split: sum.splits dest: serializeEntries_cong)

lemma serializeAll_table:
  assumes "serializeAll ctx h cs (out, m) = Inr (out', m')"
    and "distinct cs" and "dom m \<inter> set cs = {}"
  shows "m \<subseteq>\<^sub>m m'
       \<and> (\<forall>c \<in> set cs. \<exists>body. serializeBody ctx h m' c = Inr body \<and> m' c = Some (md5 ctx body)
                            \<and> body \<in> set (frame_bodies ctx h m cs))"
  using assms
proof (induction cs arbitrary: out m)
  case Nil
  then show ?case by simp
next
  case (Cons c cs)
  from Cons.prems(1) obtain body where body: "serializeBody ctx h m c = Inr body"
    and rest: "serializeAll ctx h cs (out @ frame ctx body, m(c \<mapsto> md5 ctx body)) = Inr (out', m')"
    by (auto simp: serializeOneNestedSet_def frame_def split: sum.splits)
  from Cons.prems(2) have dist: "distinct cs" and notin: "c \<notin> set cs"
    by simp_all
  from Cons.prems(3) notin have disj: "dom (m(c \<mapsto> md5 ctx body)) \<inter> set cs = {}"
    by auto
  have ih: "m(c \<mapsto> md5 ctx body) \<subseteq>\<^sub>m m'
       \<and> (\<forall>x \<in> set cs. \<exists>b. serializeBody ctx h m' x = Inr b \<and> m' x = Some (md5 ctx b)
                            \<and> b \<in> set (frame_bodies ctx h (m(c \<mapsto> md5 ctx body)) cs))"
    using rest dist disj by (rule Cons.IH)
  from Cons.prems(3) have "c \<notin> dom m"
    by auto
  then have le1: "m \<subseteq>\<^sub>m m(c \<mapsto> md5 ctx body)"
    by (auto simp: map_le_def)
  with ih have le: "m \<subseteq>\<^sub>m m'"
    by (blast intro: map_le_trans)
  from ih have c: "m' c = Some (md5 ctx body)"
    by (auto simp: map_le_def)
  from serializeBody_cong [OF body le] have "serializeBody ctx h m' c = Inr body" .
  with c ih le body show ?case
    by auto
qed

text \<open>The bytes of a body determine what was written.\<close>

lemma entries_injective:
  assumes "serializeEntries ctx m es1 = Inr bs" and "serializeEntries ctx m es2 = Inr bs"
    and "length es1 = length es2"
    and "\<forall>e \<in> set es1 \<union> set es2. case e of Elem p \<Rightarrow> roundtrips ctx p | _ \<Rightarrow> True"
    and "\<forall>c d. m c = Some d \<longrightarrow> length d < 2 ^ 31"
  shows "map (written m) es1 = map (written m) es2"
  using assms(1-4)
proof (induction es1 es2 arbitrary: bs rule: list_induct2')
  case (4 e1 r1 e2 r2)
  from "4.prems"(1) obtain x1 bs1 where r1: "serializeEntries ctx m r1 = Inr bs1"
    and bs1: "bs = x1 @ bs1"
    and x1: "(case e1 of
              Arr b \<Rightarrow> (case m e1 of
                          None \<Rightarrow> Inl DigestNotAvailable
                        | Some digest \<Rightarrow> Inr (writeBoolNoTag True @ writeByteArrayNoTag digest))
            | Elem p \<Rightarrow> (case context_serialize ctx p of
                           Inl e \<Rightarrow> Inl e
                         | Inr bs \<Rightarrow> Inr (writeBoolNoTag False @ bs))
            | EMPTY_CHILDREN \<Rightarrow> Inl PayloadError) = Inr x1"
    by (auto split: sum.splits)
  from "4.prems"(2) obtain x2 bs2 where r2: "serializeEntries ctx m r2 = Inr bs2"
    and bs2: "bs = x2 @ bs2"
    and x2: "(case e2 of
              Arr b \<Rightarrow> (case m e2 of
                          None \<Rightarrow> Inl DigestNotAvailable
                        | Some digest \<Rightarrow> Inr (writeBoolNoTag True @ writeByteArrayNoTag digest))
            | Elem p \<Rightarrow> (case context_serialize ctx p of
                           Inl e \<Rightarrow> Inl e
                         | Inr bs \<Rightarrow> Inr (writeBoolNoTag False @ bs))
            | EMPTY_CHILDREN \<Rightarrow> Inl PayloadError) = Inr x2"
    by (auto split: sum.splits)
  text \<open>What the reader finds at the front of the bytes, told from either entry.\<close>
  define front :: "'a obj \<Rightarrow> byte list \<Rightarrow> bool \<times> (byte list + 'a) \<times> byte list \<Rightarrow> bool" where
    "front e tl v = (case e of
        Arr b \<Rightarrow> v = (True, Inl (the (m e)), tl)
      | Elem p \<Rightarrow> v = (False, Inr p, tl)
      | EMPTY_CHILDREN \<Rightarrow> False)" for e tl v
  define parse :: "byte list \<Rightarrow> bool \<times> (byte list + 'a) \<times> byte list" where
    "parse s = (case readBool s of
        Inr (True, s1) \<Rightarrow> (case readBytes s1 of Inr (d, s2) \<Rightarrow> (True, Inl d, s2)
                          | Inl x \<Rightarrow> (True, Inl [], []))
      | Inr (False, s1) \<Rightarrow> (case context_deserialize ctx s1 of Inr (p, s2) \<Rightarrow> (False, Inr p, s2)
                           | Inl x \<Rightarrow> (False, Inl [], []))
      | Inl x \<Rightarrow> (False, Inl [], []))" for s
  have parse_front: "front e tl (parse (x @ tl))"
    if "(case e of
              Arr b \<Rightarrow> (case m e of
                          None \<Rightarrow> Inl DigestNotAvailable
                        | Some digest \<Rightarrow> Inr (writeBoolNoTag True @ writeByteArrayNoTag digest))
            | Elem p \<Rightarrow> (case context_serialize ctx p of
                           Inl e \<Rightarrow> Inl e
                         | Inr bs \<Rightarrow> Inr (writeBoolNoTag False @ bs))
            | EMPTY_CHILDREN \<Rightarrow> Inl PayloadError) = Inr x"
      and "case e of Elem p \<Rightarrow> roundtrips ctx p | _ \<Rightarrow> True" for e x tl
  proof (cases e)
    case EMPTY_CHILDREN
    with that show ?thesis by simp
  next
    case (Elem p)
    with that obtain pb where "context_serialize ctx p = Inr pb" "x = writeBoolNoTag False @ pb"
      by (auto split: sum.splits)
    moreover with that(2) Elem have "context_deserialize ctx (pb @ tl) = Inr (p, tl)"
      by (auto simp: roundtrips_def)
    ultimately show ?thesis
      by (simp add: front_def parse_def Elem readBool_writeBoolNoTag)
  next
    case (Arr b)
    with that obtain d where d: "m e = Some d" "x = writeBoolNoTag True @ writeByteArrayNoTag d"
      by (auto split: option.splits)
    with assms(5) have "length d < 2 ^ 31" by blast
    then have "readBytes (writeByteArrayNoTag d @ tl) = Inr (d, tl)"
      by (rule readBytes_writeByteArrayNoTag)
    with d show ?thesis
      by (simp add: front_def parse_def Arr readBool_writeBoolNoTag)
  qed
  from "4.prems"(4) have p1: "case e1 of Elem p \<Rightarrow> roundtrips ctx p | _ \<Rightarrow> True"
    and p2: "case e2 of Elem p \<Rightarrow> roundtrips ctx p | _ \<Rightarrow> True"
    by simp_all
  from parse_front [OF x1 p1, of bs1] parse_front [OF x2 p2, of bs2] bs1 bs2
  have f: "front e1 bs1 (parse bs)" "front e2 bs2 (parse bs)"
    by simp_all
  then have same: "written m e1 = written m e2" and tl: "bs1 = bs2"
    by (auto simp: front_def written_def split: obj.splits)
  have "map (written m) r1 = map (written m) r2"
    using r1 r2 [folded tl] "4.prems"(3,4) by (intro "4.IH") auto
  with same show ?case by simp
qed simp_all

lemma body_injective:
  assumes b1: "serializeBody ctx h m c1 = Inr body" and b2: "serializeBody ctx h m c2 = Inr body"
    and w1: "well_formed ctx h c1" and w2: "well_formed ctx h c2"
    and len: "\<forall>c d. m c = Some d \<longrightarrow> length d < 2 ^ 31"
  shows "case c1 of
           Arr a1 \<Rightarrow> (\<exists>a2. c2 = Arr a2 \<and> map (written m) (h a1) = map (written m) (h a2))
         | _ \<Rightarrow> c2 = c1"
proof -
  define count :: "'a obj \<Rightarrow> nat" where
    "count c = (case c of Arr a \<Rightarrow> length (h a) | Elem p \<Rightarrow> 1 | EMPTY_CHILDREN \<Rightarrow> 0)" for c
  have split: "\<exists>tl. body = writeInt32NoTag (int (count c)) @ tl \<and> count c < 2 ^ 31
         \<and> (case c of
               Arr a \<Rightarrow> serializeEntries ctx m (h a) = Inr tl \<and> 2 \<le> count c
             | Elem p \<Rightarrow> context_serialize ctx p = Inr tl
             | EMPTY_CHILDREN \<Rightarrow> tl = [])"
    if "serializeBody ctx h m c = Inr body" and "well_formed ctx h c" for c
    using that
    by (cases c)
      (auto simp: count_def serializeMultiItemChildArray_def serializeSingleItemChildArray_def
        well_formed_def split: sum.splits)
  from split [OF b1 w1] obtain t1 where t1: "body = writeInt32NoTag (int (count c1)) @ t1"
    and n1: "count c1 < 2 ^ 31"
    and k1: "case c1 of
               Arr a \<Rightarrow> serializeEntries ctx m (h a) = Inr t1 \<and> 2 \<le> count c1
             | Elem p \<Rightarrow> context_serialize ctx p = Inr t1
             | EMPTY_CHILDREN \<Rightarrow> t1 = []"
    by blast
  from split [OF b2 w2] obtain t2 where t2: "body = writeInt32NoTag (int (count c2)) @ t2"
    and n2: "count c2 < 2 ^ 31"
    and k2: "case c2 of
               Arr a \<Rightarrow> serializeEntries ctx m (h a) = Inr t2 \<and> 2 \<le> count c2
             | Elem p \<Rightarrow> context_serialize ctx p = Inr t2
             | EMPTY_CHILDREN \<Rightarrow> t2 = []"
    by blast
  from readInt32_write_length [OF n1, of t1] readInt32_write_length [OF n2, of t2] t1 t2
  have same: "count c1 = count c2" "t1 = t2"
    by simp_all
  show ?thesis
  proof (cases c1)
    case EMPTY_CHILDREN
    with same(1) k2 show ?thesis
      by (cases c2) (simp_all add: count_def)
  next
    case (Elem p)
    with same(1) k2 obtain q where q: "c2 = Elem q"
      by (cases c2) (simp_all add: count_def)
    from w1 Elem k1 have "\<forall>rest. context_deserialize ctx (t1 @ rest) = Inr (p, rest)"
      by (auto simp: well_formed_def roundtrips_def)
    then have "context_deserialize ctx (t1 @ []) = Inr (p, [])"
      by (rule spec)
    moreover from w2 q k2 have "\<forall>rest. context_deserialize ctx (t2 @ rest) = Inr (q, rest)"
      by (auto simp: well_formed_def roundtrips_def)
    then have "context_deserialize ctx (t2 @ []) = Inr (q, [])"
      by (rule spec)
    ultimately show ?thesis
      using same(2) Elem q by simp
  next
    case (Arr a1)
    with same(1) k1 k2 obtain a2 where a2: "c2 = Arr a2"
      by (cases c2) (simp_all add: count_def)
    from k1 Arr have e1: "serializeEntries ctx m (h a1) = Inr t1" by simp
    from k2 a2 same(2) have e2: "serializeEntries ctx m (h a2) = Inr t1" by simp
    from same(1) Arr a2 have l: "length (h a1) = length (h a2)"
      by (simp add: count_def)
    from w1 w2 Arr a2
    have "\<forall>e \<in> set (h a1) \<union> set (h a2). case e of Elem p \<Rightarrow> roundtrips ctx p | _ \<Rightarrow> True"
      by (auto simp: well_formed_def)
    from entries_injective [OF e1 e2 l this len] Arr a2 show ?thesis
      by simp
  qed
qed

lemma copy_of_stable:
  assumes "copy_of h m st c c'"
    and "nextAddr st \<le> nextAddr st'"
    and "\<forall>a < nextAddr st. heap st' a = heap st a"
    and "digestToChild st \<subseteq>\<^sub>m digestToChild st'"
  shows "copy_of h m st' c c'"
proof (cases c)
  case (Arr a)
  with assms(1) obtain a' where a': "c' = Arr a'" "a' < nextAddr st"
    "heap st a' = map (resolve m (digestToChild st)) (h a)"
    and ch: "\<forall>e \<in> set (h a). case e of Arr b \<Rightarrow> digestToChild st (the (m e)) \<noteq> None | _ \<Rightarrow> True"
    by (auto simp: copy_of_def)
  have same: "digestToChild st' k = digestToChild st k" if "digestToChild st k \<noteq> None" for k
    using that assms(4) by (auto simp: map_le_def dom_def)
  have "resolve m (digestToChild st') e = resolve m (digestToChild st) e" if "e \<in> set (h a)" for e
    using ch that same by (cases e) (auto simp: resolve_def)
  then have "map (resolve m (digestToChild st')) (h a) = map (resolve m (digestToChild st)) (h a)"
    by simp
  moreover have "\<forall>e \<in> set (h a). case e of Arr b \<Rightarrow> digestToChild st' (the (m e)) \<noteq> None | _ \<Rightarrow> True"
    using ch same by (auto split: obj.splits)
  ultimately show ?thesis
    using a' assms(2,3) Arr by (auto simp: copy_of_def)
qed (use assms(1) in \<open>simp_all add: copy_of_def\<close>)

lemma allocate_facts:
  "nextAddr st \<le> nextAddr (allocate h m c st)"
  "\<forall>a < nextAddr st. heap (allocate h m c st) a = heap st a"
  "digestToChild (allocate h m c st) = digestToChild st"
  by (cases c; simp add: allocate_def)+

lemma intern_facts:
  "nextAddr (snd (intern h m c d st)) = nextAddr (allocate h m c st)"
  "heap (snd (intern h m c d st)) = heap (allocate h m c st)"
  by (simp_all add: intern_def split: option.splits)

lemma resolved_written:
  "resolved m d2c es \<longleftrightarrow>
     (\<forall>w \<in> set (map (written m) es). case w of Inl d \<Rightarrow> d2c d \<noteq> None | Inr x \<Rightarrow> True)"
  by (auto simp: resolved_def written_def split: obj.splits)

lemma map_resolve_written:
  "map (resolve m d2c) es
     = map (\<lambda>w. case w of Inl d \<Rightarrow> the (d2c d) | Inr x \<Rightarrow> x) (map (written m) es)"
  by (simp add: resolve_written)

lemma map_resolve_extend:
  assumes "resolved m d2c es" and "d2c \<subseteq>\<^sub>m d2c'"
  shows "map (resolve m d2c') es = map (resolve m d2c) es" and "resolved m d2c' es"
proof -
  have same: "d2c' k = d2c k" if "d2c k \<noteq> None" for k
    using that assms(2) by (auto simp: map_le_def dom_def)
  have "resolve m d2c' e = resolve m d2c e" if "e \<in> set es" for e
    using assms(1) that same by (cases e) (auto simp: resolve_def resolved_def)
  then show "map (resolve m d2c') es = map (resolve m d2c) es"
    by simp
  show "resolved m d2c' es"
    using assms(1) same by (auto simp: resolved_def split: obj.splits)
qed

lemma copy_of_Arr:
  "copy_of h m st (Arr a) c' \<longleftrightarrow>
     (\<exists>a'. c' = Arr a' \<and> a' < nextAddr st
          \<and> heap st a' = map (resolve m (digestToChild st)) (h a)
          \<and> resolved m (digestToChild st) (h a))"
  by (simp add: copy_of_def resolved_def)

lemma same_digest:
  assumes "describes ctx h m S B" and "c1 \<in> S" and "c2 \<in> S" and "m c1 = m c2"
  shows "case c1 of
           Arr a1 \<Rightarrow> (\<exists>a2. c2 = Arr a2 \<and> map (written m) (h a1) = map (written m) (h a2))
         | _ \<Rightarrow> c2 = c1"
proof -
  from assms(1,2) obtain b1 where b1: "b1 \<in> B" "serializeBody ctx h m c1 = Inr b1"
    "m c1 = Some (md5 ctx b1)" and w1: "well_formed ctx h c1"
    by (auto simp: describes_def)
  from assms(1,3) obtain b2 where b2: "b2 \<in> B" "serializeBody ctx h m c2 = Inr b2"
    "m c2 = Some (md5 ctx b2)" and w2: "well_formed ctx h c2"
    by (auto simp: describes_def)
  from assms(1) have inj: "inj_on (md5 ctx) B"
    and len: "\<forall>c d. m c = Some d \<longrightarrow> length d < 2 ^ 31"
    by (simp_all add: describes_def)
  from assms(4) b1(3) b2(3) have "md5 ctx b1 = md5 ctx b2"
    by simp
  with inj b1(1) b2(1) have "b1 = b2"
    by (auto dest: inj_onD)
  with b2(2) have "serializeBody ctx h m c2 = Inr b1"
    by simp
  with b1(2) show ?thesis
    using w1 w2 len by (rule body_injective)
qed

lemma intern_consistent:
  assumes D: "describes ctx h m S B" and cons: "consistent h m S st"
    and c: "c \<in> S" and d: "m c = Some d"
    and res: "\<forall>a. c = Arr a \<longrightarrow> resolved m (digestToChild st) (h a)"
  shows "consistent h m S (snd (intern h m c d st))"
proof -
  let ?st' = "snd (intern h m c d st)"
  let ?I = "digestToChild st"
  have le: "?I \<subseteq>\<^sub>m digestToChild ?st'"
    by (rule intern_map_le)
  have next': "nextAddr st \<le> nextAddr ?st'"
    and heap': "\<forall>a < nextAddr st. heap ?st' a = heap st a"
    by (simp_all add: intern_facts allocate_facts)
  have stable: "copy_of h m ?st' x x'" if "copy_of h m st x x'" for x x'
    using that next' heap' le by (rule copy_of_stable)
  from cons have wf: "\<forall>k a. ?I k = Some (Arr a) \<longrightarrow> a < nextAddr st"
    and old: "\<forall>x \<in> S. \<forall>x'. ?I (the (m x)) = Some x' \<longrightarrow> copy_of h m st x x'"
    by (simp_all add: consistent_def)
  show ?thesis
  proof (cases "?I d")
    case (Some v)
    then have same: "digestToChild ?st' = ?I"
      by (simp add: intern_digestToChild)
    from wf next' have "\<forall>k a. digestToChild ?st' k = Some (Arr a) \<longrightarrow> a < nextAddr ?st'"
      unfolding same by (meson less_le_trans)
    moreover from old stable
    have "\<forall>x \<in> S. \<forall>x'. digestToChild ?st' (the (m x)) = Some x' \<longrightarrow> copy_of h m ?st' x x'"
      unfolding same by blast
    ultimately show ?thesis
      by (simp add: consistent_def)
  next
    case None
    then have upd: "digestToChild ?st' = ?I(d \<mapsto> built c st)"
      by (simp add: intern_digestToChild)
    have wf': "\<forall>k a. digestToChild ?st' k = Some (Arr a) \<longrightarrow> a < nextAddr ?st'"
    proof (intro allI impI)
      fix k a
      assume ka: "digestToChild ?st' k = Some (Arr a)"
      show "a < nextAddr ?st'"
      proof (cases "k = d")
        case True
        with ka upd have "built c st = Arr a" by simp
        then show ?thesis
          by (cases c) (simp_all add: built_def intern_facts allocate_def)
      next
        case False
        with ka upd have "?I k = Some (Arr a)" by simp
        with wf next' show ?thesis
          by (meson less_le_trans)
      qed
    qed
    have new: "copy_of h m ?st' x (built c st)" if x: "x \<in> S" and mx: "m x = Some d" for x
    proof (cases c)
      case (Arr a)
      from same_digest [OF D c x] d mx Arr obtain a2 where a2: "x = Arr a2"
        and w: "map (written m) (h a) = map (written m) (h a2)"
        by auto
      from res Arr have r: "resolved m ?I (h a)" by simp
      then have r2: "resolved m ?I (h a2)"
        by (simp add: resolved_written w)
      have "heap ?st' (nextAddr st) = map (resolve m ?I) (h a)"
        by (simp add: intern_facts allocate_def Arr)
      also have "\<dots> = map (resolve m ?I) (h a2)"
        by (simp only: map_resolve_written w)
      also have "\<dots> = map (resolve m (digestToChild ?st')) (h a2)"
        using map_resolve_extend(1) [OF r2 le] by simp
      finally have "heap ?st' (nextAddr st) = map (resolve m (digestToChild ?st')) (h a2)" .
      moreover have "nextAddr st < nextAddr ?st'"
        by (simp add: intern_facts allocate_def Arr)
      moreover have "resolved m (digestToChild ?st') (h a2)"
        by (rule map_resolve_extend(2) [OF r2 le])
      ultimately show ?thesis
        by (simp add: a2 copy_of_Arr built_def Arr)
    next
      case EMPTY_CHILDREN
      with same_digest [OF D c x] d mx show ?thesis
        by (simp add: copy_of_def built_def)
    next
      case (Elem p)
      with same_digest [OF D c x] d mx show ?thesis
        by (simp add: copy_of_def built_def)
    qed
    have "copy_of h m ?st' x x'"
      if x: "x \<in> S" and l: "digestToChild ?st' (the (m x)) = Some x'" for x x'
    proof (cases "the (m x) = d")
      case True
      with l upd have x': "x' = built c st" by simp
      from D x obtain dx where "m x = Some dx"
        by (auto simp: describes_def)
      with True have "m x = Some d" by simp
      from new [OF x this] x' show ?thesis by simp
    next
      case False
      with l upd have "?I (the (m x)) = Some x'" by simp
      with old x have "copy_of h m st x x'" by blast
      then show ?thesis by (rule stable)
    qed
    with wf' show ?thesis
      by (simp add: consistent_def)
  qed
qed

lemma intern_cong:
  assumes "\<forall>a. c = Arr a \<longrightarrow>
             map (resolve m (digestToChild st)) (h a) = map (resolve m2 (digestToChild st)) (h a)"
  shows "intern h m c d st = intern h m2 c d st"
proof -
  have "allocate h m c st = allocate h m2 c st"
  proof (cases c)
    case (Arr a)
    with assms have "map (resolve m (digestToChild st)) (h a)
                       = map (resolve m2 (digestToChild st)) (h a)"
      by blast
    then show ?thesis
      by (simp only: allocate_def Arr obj.case)
  qed (simp_all add: allocate_def)
  then show ?thesis
    unfolding intern_def by (simp only:)
qed

lemma intern_all_consistent:
  assumes "serializeAll ctx h cs (out, m) = Inr (out', m')"
    and "distinct cs" and "dom m \<inter> set cs = {}" and "set cs \<subseteq> S"
    and D: "describes ctx h m' S B"
    and "consistent h m' S st"
    and "\<forall>c \<in> dom m. digestToChild st (the (m c)) \<noteq> None"
  shows "consistent h m' S (snd (intern_all ctx h m cs prev st))
       \<and> (\<forall>c \<in> dom m \<union> set cs.
             digestToChild (snd (intern_all ctx h m cs prev st)) (the (m' c)) \<noteq> None)"
  using assms(1-4,6,7)
proof (induction cs arbitrary: out m prev st)
  case Nil
  then show ?case by simp
next
  case (Cons c cs)
  from Cons.prems(1) obtain body where body: "serializeBody ctx h m c = Inr body"
    and rest: "serializeAll ctx h cs (out @ frame ctx body, m(c \<mapsto> md5 ctx body)) = Inr (out', m')"
    by (auto simp: serializeOneNestedSet_def frame_def split: sum.splits)
  let ?d = "md5 ctx body"
  let ?m1 = "m(c \<mapsto> ?d)"
  let ?I = "digestToChild st"
  from Cons.prems(2) have dist: "distinct cs" and notin: "c \<notin> set cs"
    by simp_all
  from Cons.prems(3) notin have disj: "dom ?m1 \<inter> set cs = {}" and cm: "c \<notin> dom m"
    by auto
  from Cons.prems(4) have sub: "set cs \<subseteq> S" and cS: "c \<in> S"
    by simp_all
  from serializeAll_table [OF Cons.prems(1-3)] have le: "m \<subseteq>\<^sub>m m'"
    by simp
  from serializeAll_table [OF rest dist disj] have le1: "?m1 \<subseteq>\<^sub>m m'"
    by simp
  then have m'c: "m' c = Some ?d"
    by (auto simp: map_le_def)
  have agree: "the (m' e) = the (m e)" if "m e \<noteq> None" for e
    using that le by (auto simp: map_le_def dom_def)
  have entries: "resolved m' ?I (h a)
                 \<and> map (resolve m ?I) (h a) = map (resolve m' ?I) (h a)" if "c = Arr a" for a
  proof -
    from body that obtain eb where "serializeEntries ctx m (h a) = Inr eb"
      by (auto simp: serializeMultiItemChildArray_def split: sum.splits)
    then have def: "case e of Arr b \<Rightarrow> m e \<noteq> None | Elem p \<Rightarrow> True | EMPTY_CHILDREN \<Rightarrow> False"
      if "e \<in> set (h a)" for e
      using that by (rule serializeEntries_defined)
    have "(case e of Arr b \<Rightarrow> ?I (the (m' e)) \<noteq> None | _ \<Rightarrow> True)
          \<and> resolve m ?I e = resolve m' ?I e" if "e \<in> set (h a)" for e
    proof (cases e)
      case (Arr b)
      with def [OF that] have "m e \<noteq> None" by simp
      with Cons.prems(6) agree [of e] Arr show ?thesis
        by (auto simp: resolve_def dom_def)
    qed (simp_all add: resolve_def)
    then show ?thesis
      by (simp add: resolved_def)
  qed
  then have same: "intern h m c ?d st = intern h m' c ?d st"
    by (intro intern_cong) simp
  obtain r st1 where i: "intern h m c ?d st = (r, st1)"
    by (cases "intern h m c ?d st")
  have cons1: "consistent h m' S st1"
  proof -
    have "consistent h m' S (snd (intern h m' c ?d st))"
      using D Cons.prems(5) cS m'c
    proof (rule intern_consistent)
      show "\<forall>a. c = Arr a \<longrightarrow> resolved m' ?I (h a)"
        using entries by simp
    qed
    then have "consistent h m' S (snd (intern h m c ?d st))"
      by (simp only: same)
    then show ?thesis
      by (simp add: i)
  qed
  have le_st: "?I \<subseteq>\<^sub>m digestToChild st1"
    using intern_map_le [of st h m c ?d] i by simp
  have done1: "\<forall>x \<in> dom ?m1. digestToChild st1 (the (?m1 x)) \<noteq> None"
  proof
    fix x
    assume x: "x \<in> dom ?m1"
    show "digestToChild st1 (the (?m1 x)) \<noteq> None"
    proof (cases "x = c")
      case True
      with intern_result [of h m c ?d st] i show ?thesis by simp
    next
      case False
      with x Cons.prems(6) have "?I (the (m x)) \<noteq> None" by auto
      with le_st False show ?thesis
        by (auto simp: map_le_def dom_def)
    qed
  qed
  have "consistent h m' S (snd (intern_all ctx h ?m1 cs (Some r) st1))
       \<and> (\<forall>x \<in> dom ?m1 \<union> set cs.
             digestToChild (snd (intern_all ctx h ?m1 cs (Some r) st1)) (the (m' x)) \<noteq> None)"
    using rest dist disj sub cons1 done1 by (rule Cons.IH)
  with body i show ?case
    by auto
qed

lemma serializeAll_dom:
  "serializeAll ctx h cs (out, m) = Inr (out', m') \<Longrightarrow> dom m' = dom m \<union> set cs"
proof (induction cs arbitrary: out m)
  case Nil
  then show ?case by simp
next
  case (Cons c cs)
  from Cons.prems obtain body where
    rest: "serializeAll ctx h cs (out @ frame ctx body, m(c \<mapsto> md5 ctx body)) = Inr (out', m')"
    by (auto simp: serializeOneNestedSet_def frame_def split: sum.splits)
  have "dom m' = dom (m(c \<mapsto> md5 ctx body)) \<union> set cs"
    using rest by (rule Cons.IH)
  then show ?case by auto
qed

lemma sorted_children_reach:
  assumes "getTopologicallySortedChildren n h nestedSet = Some topo"
  shows "set topo = reach h (rawChildren nestedSet)"
proof -
  from assms have d: "dfs n h [] (rawChildren nestedSet) = Some topo"
    by (simp add: getTopologicallySortedChildren_def)
  from dfs_subset [OF d] have "set topo \<subseteq> reach h (rawChildren nestedSet)"
    by simp
  moreover from sorted_children(3,4) [OF assms] have "rawChildren nestedSet \<in> set topo"
    using last_in_set [of topo] by simp
  with sorted_children(2) [OF assms] have "reach h (rawChildren nestedSet) \<subseteq> set topo"
    by (rule topological_closed)
  ultimately show ?thesis by blast
qed

lemma copy_of_agree:
  assumes ag: "agree_on K st1 st2"
    and es: "\<And>a b. c = Arr a \<Longrightarrow> Arr b \<in> set (h a) \<Longrightarrow> the (m (Arr b)) \<in> K"
    and cp: "copy_of h m st2 c c'"
  shows "copy_of h m st1 c c'"
proof (cases c)
  case (Arr a)
  from ag have hp: "heap st1 = heap st2" and na: "nextAddr st1 = nextAddr st2"
    and eq: "\<forall>d \<in> K. digestToChild st1 d = digestToChild st2 d"
    by (simp_all add: agree_on_def)
  from cp Arr obtain a' where a': "c' = Arr a'" "a' < nextAddr st2"
    and hs: "heap st2 a' = map (resolve m (digestToChild st2)) (h a)"
    and al: "\<forall>e \<in> set (h a). case e of Arr b \<Rightarrow> digestToChild st2 (the (m e)) \<noteq> None | _ \<Rightarrow> True"
    by (auto simp: copy_of_def)
  have same: "digestToChild st1 (the (m (Arr b))) = digestToChild st2 (the (m (Arr b)))"
    if "Arr b \<in> set (h a)" for b
    using es [OF Arr that] eq by simp
  have rs: "map (resolve m (digestToChild st1)) (h a) = map (resolve m (digestToChild st2)) (h a)"
  proof (rule map_cong [OF refl])
    fix e assume e: "e \<in> set (h a)"
    show "resolve m (digestToChild st1) e = resolve m (digestToChild st2) e"
    proof (cases e)
      case (Arr b)
      with same e show ?thesis by (simp add: resolve_def)
    qed (simp_all add: resolve_def)
  qed
  have al1: "\<forall>e \<in> set (h a). case e of Arr b \<Rightarrow> digestToChild st1 (the (m e)) \<noteq> None | _ \<Rightarrow> True"
  proof
    fix e assume e: "e \<in> set (h a)"
    show "case e of Arr b \<Rightarrow> digestToChild st1 (the (m e)) \<noteq> None | _ \<Rightarrow> True"
    proof (cases e)
      case (Arr b)
      with al e same show ?thesis by fastforce
    qed simp_all
  qed
  from a' hs have "a' < nextAddr st1" "heap st1 a' = map (resolve m (digestToChild st1)) (h a)"
    by (simp_all add: hp na rs)
  with a'(1) al1 Arr show ?thesis
    unfolding copy_of_def by simp
qed (use cp in \<open>simp_all add: copy_of_def\<close>)

lemma consistent_agree:
  assumes cons: "consistent h m S st2" and ag: "agree_on K st1 st2"
    and keys: "\<forall>c \<in> S. the (m c) \<in> K"
    and es: "\<And>a b. Arr a \<in> S \<Longrightarrow> Arr b \<in> set (h a) \<Longrightarrow> the (m (Arr b)) \<in> K"
  shows "consistent h m S st1"
  unfolding consistent_def
proof (intro conjI allI impI ballI)
  fix k a assume "digestToChild st1 k = Some (Arr a)"
  with ag have "digestToChild st2 k = Some (Arr a)"
    by (auto simp: agree_on_def map_le_def dom_def)
  with cons have "a < nextAddr st2"
    by (auto simp: consistent_def)
  with ag show "a < nextAddr st1"
    by (simp add: agree_on_def)
next
  fix c c' assume c: "c \<in> S" and c': "digestToChild st1 (the (m c)) = Some c'"
  from keys c ag c' have "digestToChild st2 (the (m c)) = Some c'"
    by (simp add: agree_on_def)
  with cons c have cp: "copy_of h m st2 c c'"
    by (auto simp: consistent_def)
  have "the (m (Arr b)) \<in> K" if "c = Arr a" "Arr b \<in> set (h a)" for a b
    using that c by (auto intro: es)
  from ag this cp show "copy_of h m st1 c c'"
    by (rule copy_of_agree)
qed

lemma read_back_copies:
  assumes on: "shouldSerializeNestedSet ctx"
    and topo: "getTopologicallySortedChildren n h nestedSet = Some topo"
    and ser: "serializeAll ctx h topo
                (writeInt32NoTag (int (length topo)) @ orderCodec_serialize (getOrder nestedSet),
                 Map.empty) = Inr (bytes, m')"
    and len: "length topo < 2 ^ 31"
    and wf: "\<forall>c \<in> set topo. well_formed ctx h c"
    and sizes: "\<forall>b \<in> set (frame_bodies ctx h Map.empty topo).
                  length b < 2 ^ 31 \<and> length (md5 ctx b) < 2 ^ 31"
    and nc: "inj_on (md5 ctx) (set (frame_bodies ctx h Map.empty topo))"
    and cons: "consistent h m' (set topo) st"
    and gc: "\<forall>ks \<in> set (collector st).
               ks \<inter> md5 ctx ` set (frame_bodies ctx h Map.empty topo) = {}"
  shows "\<exists>r st'. deserialize ctx st (bytes @ rest) = (Inr (r, rest), st')
           \<and> getOrder r = getOrder nestedSet
           \<and> digestToChild st' (the (m' (rawChildren nestedSet))) = Some (rawChildren r)
           \<and> consistent h m' (set topo) st'
           \<and> (\<forall>c \<in> set topo. digestToChild st' (the (m' c)) \<noteq> None)"
proof -
  let ?B = "set (frame_bodies ctx h Map.empty topo)"
  let ?K = "md5 ctx ` ?B"
  let ?st2 = "snd (intern_all ctx h Map.empty topo None st)"
  note sc = sorted_children [OF topo]
  have disj: "dom (Map.empty :: 'a obj \<rightharpoonup> byte list) \<inter> set topo = {}"
    by simp
  from serializeAll_table [OF ser sc(1) disj]
  have tab: "\<forall>c \<in> set topo. \<exists>body. serializeBody ctx h m' c = Inr body
                 \<and> m' c = Some (md5 ctx body) \<and> body \<in> ?B"
    by simp
  have lenm: "length d < 2 ^ 31" if "m' c = Some d" for c d
  proof -
    from serializeAll_dom [OF ser] that have "c \<in> set topo"
      by auto
    with tab obtain body where "m' c = Some (md5 ctx body)" "body \<in> ?B"
      by blast
    with that have "d = md5 ctx body" "body \<in> ?B"
      by simp_all
    with sizes show ?thesis by simp
  qed
  from tab wf nc lenm have D: "describes ctx h m' (set topo) ?B"
    unfolding describes_def by blast
  have "\<forall>c \<in> dom (Map.empty :: 'a obj \<rightharpoonup> byte list). digestToChild st (the (Map.empty c)) \<noteq> None"
    by simp
  note intern_all_consistent [where m = Map.empty and cs = topo and S = "set topo" and prev = None
      and st = st, OF ser sc(1) disj subset_refl D cons this]
  then have c2: "consistent h m' (set topo) ?st2"
    and all2: "\<forall>c \<in> set topo. digestToChild ?st2 (the (m' c)) \<noteq> None"
    by simp_all
  from deserialize_written [OF on ser sc(3) len wf sizes gc, where rest = rest]
  obtain d r st' where d: "m' (last topo) = Some d"
    and dr: "digestToChild ?st2 d = Some r"
    and des: "deserialize ctx st (bytes @ rest)
                = (Inr (createNestedSet (getOrder nestedSet) r, rest), st')"
    and ag: "agree_on ?K st' ?st2"
    by blast
  have keys: "\<forall>c \<in> set topo. the (m' c) \<in> ?K"
    using tab by fastforce
  have es: "the (m' (Arr b)) \<in> ?K" if "Arr a \<in> set topo" "Arr b \<in> set (h a)" for a b
  proof -
    from tab that(1) obtain body where "serializeBody ctx h m' (Arr a) = Inr body"
      by blast
    then obtain eb where "serializeEntries ctx m' (h a) = Inr eb"
      by (auto simp: serializeMultiItemChildArray_def split: sum.splits)
    from serializeEntries_defined [OF this that(2)] have "m' (Arr b) \<noteq> None"
      by simp
    with serializeAll_dom [OF ser] have "Arr b \<in> set topo"
      by auto
    with keys show ?thesis by simp
  qed
  from ag keys have same: "\<forall>c \<in> set topo. digestToChild st' (the (m' c)) = digestToChild ?st2 (the (m' c))"
    unfolding agree_on_def by blast
  from sc(3,4) have "rawChildren nestedSet \<in> set topo"
    by (metis last_in_set)
  with same have "digestToChild st' (the (m' (rawChildren nestedSet)))
      = digestToChild ?st2 (the (m' (rawChildren nestedSet)))"
    by blast
  with d dr sc(4) have "digestToChild st' (the (m' (rawChildren nestedSet))) = Some r"
    by simp
  moreover have "consistent h m' (set topo) st'"
    using c2 ag keys es by (rule consistent_agree)
  moreover from same all2 have "\<forall>c \<in> set topo. digestToChild st' (the (m' c)) \<noteq> None"
    by simp
  ultimately show ?thesis
    using des
    by (intro exI [of _ "createNestedSet (getOrder nestedSet) r"] exI [of _ st']) simp
qed

lemma list_all2_choice:
  assumes "\<forall>x \<in> set xs. \<exists>y. Q x y"
  shows "\<exists>ys. list_all2 Q xs ys"
proof -
  from assms obtain f where "\<forall>x \<in> set xs. Q x (f x)"
    using bchoice [of "set xs" Q] by blast
  then have "list_all2 Q xs (map f xs)"
    by (simp add: list_all2_map2 list_all2_same)
  then show ?thesis ..
qed

lemma copies_unfold:
  assumes copies: "\<forall>c \<in> set seen \<union> set xs.
                     \<exists>c'. digestToChild st (the (m c)) = Some c' \<and> copy_of h m st c c'"
    and "topological h seen xs"
    and "\<forall>c \<in> set seen. \<exists>t. unfolds h c t \<and> unfolds (heap st) (the (digestToChild st (the (m c)))) t"
  shows "\<forall>c \<in> set xs. \<exists>t. unfolds h c t \<and> unfolds (heap st) (the (digestToChild st (the (m c)))) t"
  using assms
proof (induction xs arbitrary: seen)
  case Nil
  then show ?case by simp
next
  case (Cons x xs)
  let ?g = "\<lambda>c. the (digestToChild st (the (m c)))"
  from Cons.prems(1) obtain x' where x': "digestToChild st (the (m x)) = Some x'"
    and cp: "copy_of h m st x x'"
    by auto
  have px: "\<exists>t. unfolds h x t \<and> unfolds (heap st) (?g x) t"
  proof (cases x)
    case EMPTY_CHILDREN
    with cp x' show ?thesis
      by (auto simp: copy_of_def intro: unfolds.intros)
  next
    case (Elem p)
    with cp x' show ?thesis
      by (auto simp: copy_of_def intro: unfolds.intros)
  next
    case (Arr a)
    with cp obtain a' where a': "x' = Arr a'"
      and hp: "heap st a' = map (resolve m (digestToChild st)) (h a)"
      by (auto simp: copy_of_Arr)
    have "\<exists>t. unfolds h e t \<and> unfolds (heap st) (resolve m (digestToChild st) e) t"
      if e: "e \<in> set (h a)" for e
    proof (cases e)
      case EMPTY_CHILDREN
      then show ?thesis by (auto simp: resolve_def intro: unfolds.intros)
    next
      case (Elem p)
      then show ?thesis by (auto simp: resolve_def intro: unfolds.intros)
    next
      case (Arr b)
      from Cons.prems(2) \<open>x = Arr a\<close>
      have "\<forall>e \<in> set (h a). case e of Arr b \<Rightarrow> e \<in> set seen | _ \<Rightarrow> True"
        by simp
      from bspec [OF this e] Arr have "e \<in> set seen"
        by simp
      with Cons.prems(3) have "\<exists>t. unfolds h e t \<and> unfolds (heap st) (?g e) t"
        by (rule bspec)
      with Arr show ?thesis
        by (simp add: resolve_def)
    qed
    then have "\<forall>e \<in> set (h a).
        \<exists>t. unfolds h e t \<and> unfolds (heap st) (resolve m (digestToChild st) e) t"
      by blast
    from list_all2_choice [OF this] obtain ts where
      ts: "list_all2 (\<lambda>e t. unfolds h e t \<and> unfolds (heap st) (resolve m (digestToChild st) e) t)
             (h a) ts"
      by (rule exE)
    then have "list_all2 (unfolds h) (h a) ts"
      by (rule list_all2_mono) simp
    then have 1: "unfolds h (Arr a) (ArrShape ts)"
      by (rule unfolds.intros)
    from ts have "list_all2 (\<lambda>e t. unfolds (heap st) (resolve m (digestToChild st) e) t) (h a) ts"
      by (rule list_all2_mono) simp
    then have "list_all2 (unfolds (heap st)) (heap st a') ts"
      by (simp add: hp list_all2_map1)
    then have "unfolds (heap st) (Arr a') (ArrShape ts)"
      by (rule unfolds.intros)
    with 1 x' a' Arr show ?thesis
      by (intro exI [of _ "ArrShape ts"]) simp
  qed
  have "\<forall>c \<in> set xs. \<exists>t. unfolds h c t \<and> unfolds (heap st) (?g c) t"
  proof (rule Cons.IH)
    show "\<forall>c \<in> set (seen @ [x]) \<union> set xs.
            \<exists>c'. digestToChild st (the (m c)) = Some c' \<and> copy_of h m st c c'"
      using Cons.prems(1) by auto
    show "topological h (seen @ [x]) xs"
      using Cons.prems(2) by simp
    show "\<forall>c \<in> set (seen @ [x]). \<exists>t. unfolds h c t \<and> unfolds (heap st) (?g c) t"
      using Cons.prems(3) px by auto
  qed
  with px show ?case by simp
qed

lemma consistent_copies:
  assumes "consistent h m S st" and "\<forall>c \<in> S. digestToChild st (the (m c)) \<noteq> None"
  shows "\<forall>c \<in> S. \<exists>c'. digestToChild st (the (m c)) = Some c' \<and> copy_of h m st c c'"
  using assms by (auto simp: consistent_def)


lemmas more_eval =
  example_digest_leaf_def example_digest_X_def example_digest_Y_def example_unshared_def

lemma unfolds_Elem: "unfolds h (Elem p) t \<Longrightarrow> t = ElemShape p"
  by (auto elim: unfolds.cases)

lemma serializeAll_example:
  "serializeAll example_env example_heap [Arr 1, Arr 2]
     (writeInt32NoTag (int (length [Arr 1, Arr 2 :: nat obj])) @ orderCodec_serialize LINK_ORDER,
      Map.empty)
   = Inr ([2, 2] @ example_frame_S @ example_frame_R,
          [Arr 1 \<mapsto> example_digest_S, Arr 2 \<mapsto> example_digest_R])"
  by (simp add: serializeOneNestedSet_def serializeMultiItemChildArray_def write_eval
      example_eval frame_eval)

lemma example_no_collision:
  "inj_on (md5 example_env) (set (frame_bodies example_env example_heap Map.empty [Arr 1, Arr 2]))"
  unfolding example_frame_bodies
  by (simp add: example_env_def example_md5_def example_digest_S_def)

lemma consistent_collecting:
  "consistent example_heap [Arr 1 \<mapsto> example_digest_S, Arr 2 \<mapsto> example_digest_R]
     (set [Arr 1, Arr 2]) jvm_collecting"
  by (simp add: consistent_def copy_of_def resolve_def example_heap_def frame_eval
      jvm_collecting_def)

lemma collector_collecting:
  "\<forall>ks \<in> set (collector jvm_collecting).
     ks \<inter> md5 example_env ` set (frame_bodies example_env example_heap Map.empty [Arr 1, Arr 2])
       = {}"
  unfolding example_frame_bodies
  by (simp add: jvm_collecting_def example_env_def example_md5_def example_digest_X_def
      example_digest_Y_def)

lemma collector_fresh_collecting:
  "\<forall>ks \<in> set (collector fresh_collecting).
     ks \<inter> md5 example_env ` set (frame_bodies example_env example_heap Map.empty [Arr 1, Arr 2])
       = {}"
  unfolding example_frame_bodies
  by (simp add: fresh_collecting_def example_env_def example_md5_def example_digest_X_def
      example_digest_Y_def)
section \<open>The sort\<close>

text \<open>
  Claim C3. From a root below which the references are acyclic, the sort returns once the
  depth of recursion allowed is large enough, and always the same list: each node
  reachable from the root exactly once, every array after the arrays among its entries,
  and the root last.
\<close>

theorem topological_sort_correct:
  assumes "acyclic_from h (rawChildren nestedSet)"
  shows "\<exists>n sorted.
           (\<forall>m \<ge> n. getTopologicallySortedChildren m h nestedSet = Some sorted)
           \<and> distinct sorted
           \<and> set sorted = reach h (rawChildren nestedSet)
           \<and> topological h [] sorted
           \<and> sorted \<noteq> [] \<and> last sorted = rawChildren nestedSet"
proof -
  have "sorted_set h []"
    by (simp add: sorted_set_def)
  from dfs_acyclic [OF assms reach_refl this]
  show ?thesis
    by (auto simp: dfs_post_def sorted_set_def getTopologicallySortedChildren_def)
qed

theorem topological_sort_correct_witness:
  "acyclic_from example_heap (rawChildren \<lparr>getOrder = LINK_ORDER, rawChildren = Arr 2\<rparr>)
   \<and> getTopologicallySortedChildren 2 example_heap \<lparr>getOrder = LINK_ORDER, rawChildren = Arr 2\<rparr>
       = Some [Arr 1, Arr 2]
   \<and> (\<exists>n sorted.
         (\<forall>m \<ge> n. getTopologicallySortedChildren m example_heap
                     \<lparr>getOrder = LINK_ORDER, rawChildren = Arr 2\<rparr> = Some sorted)
         \<and> distinct sorted
         \<and> set sorted = reach example_heap (Arr 2)
         \<and> topological example_heap [] sorted
         \<and> sorted \<noteq> [] \<and> last sorted = Arr 2)"
proof -
  have a: "acyclic_from example_heap (rawChildren \<lparr>getOrder = LINK_ORDER, rawChildren = Arr 2\<rparr>)"
    by (simp add: example_heap_acyclic)
  have "getTopologicallySortedChildren 2 example_heap \<lparr>getOrder = LINK_ORDER, rawChildren = Arr 2\<rparr>
       = Some [Arr 1, Arr 2]"
    by (simp add: getTopologicallySortedChildren_def dfs_numeral add_def example_heap_def)
  with a topological_sort_correct [OF a] show ?thesis
    by simp
qed

text \<open>
  Claim C4, as it is written, does not hold: \<open>dfs\<close> has no check for a cycle and raises
  nothing. On the array that holds itself the sort does not return, whatever depth of
  recursion is allowed, so \<open>serialize\<close> neither fails with an error nor writes.
\<close>

theorem cycle_raises_no_error:
  "\<forall>n. serialize n example_env cyclic_heap \<lparr>getOrder = STABLE_ORDER, rawChildren = Arr 3\<rparr> = None"
proof
  fix n
  have "dfs n cyclic_heap [] (Arr 3) = None"
    by (induction n) (simp_all add: cyclic_heap_def)
  then show "serialize n example_env cyclic_heap \<lparr>getOrder = STABLE_ORDER, rawChildren = Arr 3\<rparr> = None"
    by (simp add: serialize_def getTopologicallySortedChildren_def example_env_def)
qed

text \<open>
  Claim C4, amended. When a cycle can be reached from the root, the sort does not return
  for any depth of recursion (in Java the recursion ends in a \<open>StackOverflowError\<close>), and
  so neither does \<open>serialize\<close>: no error of the codec is raised and nothing is written.
\<close>

theorem cycle_never_returns:
  assumes "cyclic_from h (rawChildren nestedSet)"
  shows "getTopologicallySortedChildren n h nestedSet = None
       \<and> (shouldSerializeNestedSet ctx \<longrightarrow> serialize n ctx h nestedSet = None)"
proof -
  from assms have "dfs n h [] (rawChildren nestedSet) = None"
    by (rule dfs_cycle) simp
  then show ?thesis
    by (simp add: getTopologicallySortedChildren_def serialize_def)
qed

theorem cycle_never_returns_witness:
  "cyclic_from cyclic_heap (rawChildren \<lparr>getOrder = STABLE_ORDER, rawChildren = Arr 3\<rparr>)
   \<and> shouldSerializeNestedSet example_env
   \<and> getTopologicallySortedChildren 7 cyclic_heap \<lparr>getOrder = STABLE_ORDER, rawChildren = Arr 3\<rparr>
       = None
   \<and> serialize 7 example_env cyclic_heap \<lparr>getOrder = STABLE_ORDER, rawChildren = Arr 3\<rparr> = None"
proof -
  have "(Arr 3, Arr 3) \<in> refs cyclic_heap"
    by (simp add: refs_iff cyclic_heap_def)
  then have "(Arr 3, Arr 3) \<in> (refs cyclic_heap)\<^sup>+"
    by (rule r_into_trancl)
  then have c: "cyclic_from cyclic_heap (rawChildren \<lparr>getOrder = STABLE_ORDER, rawChildren = Arr 3\<rparr>)"
    using reach_refl [of "Arr 3" cyclic_heap] by (auto simp: cyclic_from_def)
  have t: "shouldSerializeNestedSet example_env"
    by (simp add: example_env_def)
  from cycle_never_returns [OF c, of 7 example_env] c t show ?thesis
    by simp
qed

section \<open>The envelope\<close>

text \<open>
  Claim C6. With serialization switched on, a stream whose count reads as less than 1
  makes \<open>deserialize\<close> fail in \<open>Preconditions.checkState\<close>, the process state unchanged; and
  whenever \<open>deserialize\<close> returns a nested set, the count it read was at least 1.
\<close>

theorem deserialize_count_at_least_one:
  assumes "shouldSerializeNestedSet ctx"
  shows "(\<forall>n rest. readInt32 codedIn = Inr (n, rest) \<and> n < 1 \<longrightarrow>
            deserialize ctx st codedIn = (Inl IllegalState, st))
       \<and> (\<forall>r st'. deserialize ctx st codedIn = (Inr r, st') \<longrightarrow>
            (\<exists>n rest. readInt32 codedIn = Inr (n, rest) \<and> 1 \<le> n))"
  using assms
  by (auto simp: deserialize_def split: sum.splits prod.splits if_splits option.splits)

theorem deserialize_count_at_least_one_witness:
  "shouldSerializeNestedSet example_env
   \<and> readInt32 [0, 2] = Inr (0, [2]) \<and> (0::int) < 1
   \<and> deserialize example_env fresh_jvm [0, 2] = (Inl IllegalState, fresh_jvm)
   \<and> deserialize example_env fresh_jvm [1, 2, 1, 9, 1, 0]
       = (Inr (\<lparr>getOrder = LINK_ORDER, rawChildren = EMPTY_CHILDREN\<rparr>, []),
          fresh_jvm\<lparr>digestToChild := [[9] \<mapsto> EMPTY_CHILDREN]\<rparr>)
   \<and> (\<exists>n rest. readInt32 [1, 2, 1, 9, 1, 0] = Inr (n, rest) \<and> 1 \<le> n)"
proof -
  have t: "shouldSerializeNestedSet example_env"
    by (simp add: example_env_def)
  have r: "readInt32 [0, 2] = Inr (0, [2]) \<and> (0::int) < 1"
    by (simp add: read_eval)
  have d: "deserialize example_env fresh_jvm [1, 2, 1, 9, 1, 0]
       = (Inr (\<lparr>getOrder = LINK_ORDER, rawChildren = EMPTY_CHILDREN\<rparr>, []),
          fresh_jvm\<lparr>digestToChild := [[9] \<mapsto> EMPTY_CHILDREN]\<rparr>)"
    by (simp add: deserialize_eval read_eval example_eval)
  from deserialize_count_at_least_one [OF t, of "[0, 2]" fresh_jvm] r
  have "deserialize example_env fresh_jvm [0, 2] = (Inl IllegalState, fresh_jvm)"
    by blast
  moreover from deserialize_count_at_least_one [OF t, of "[1, 2, 1, 9, 1, 0]" fresh_jvm] d
  have "\<exists>n rest. readInt32 [1, 2, 1, 9, 1, 0] = Inr (n, rest) \<and> 1 \<le> n"
    by blast
  ultimately show ?thesis
    using t r d by blast
qed

section \<open>One frame\<close>

text \<open>
  Claim C10. A frame whose body declares a negative child count is not refused. The node
  built for it is the sentinel \<open>EMPTY_CHILDREN\<close>, which then goes through \<open>putIfAbsent\<close>
  under the frame's digest like any other node; the call returns with the stream after
  the frame. A frame with the same digest whose body declares the count 0 has the same
  outcome.
\<close>

theorem negative_child_count_yields_empty:
  assumes "readBytes codedIn = Inr (digest, codedIn1)"
    and "readBytes codedIn1 = Inr (childBytes, codedIn2)"
    and "readInt32 childBytes = Inr (childCount, childCodedIn)"
    and "childCount < 0"
  shows "deserializeOneNestedSet ctx st codedIn =
           (Inr (case digestToChild st digest of None \<Rightarrow> EMPTY_CHILDREN | Some old \<Rightarrow> old,
                 codedIn2),
            st\<lparr>digestToChild :=
                 (case digestToChild st digest of
                    None \<Rightarrow> (digestToChild st)(digest \<mapsto> EMPTY_CHILDREN)
                  | Some old \<Rightarrow> digestToChild st)\<rparr>)
       \<and> (\<forall>codedIn' codedIn1' childBytes' childCodedIn'.
             readBytes codedIn' = Inr (digest, codedIn1') \<and>
             readBytes codedIn1' = Inr (childBytes', codedIn2) \<and>
             readInt32 childBytes' = Inr (0, childCodedIn') \<longrightarrow>
             deserializeOneNestedSet ctx st codedIn' = deserializeOneNestedSet ctx st codedIn)"
  using assms
  by (auto simp: deserializeOneNestedSet_def putIfAbsent_def split: option.splits)

theorem negative_child_count_yields_empty_witness:
  "readBytes [1, 9, 5, 255, 255, 255, 255, 15, 4] = Inr ([9], [5, 255, 255, 255, 255, 15, 4])
   \<and> readBytes [5, 255, 255, 255, 255, 15, 4] = Inr ([255, 255, 255, 255, 15], [4])
   \<and> readInt32 [255, 255, 255, 255, 15] = Inr (- 1, [])
   \<and> readBytes [1, 9, 1, 0, 4] = Inr ([9], [1, 0, 4])
   \<and> readBytes [1, 0, 4] = Inr ([0], [4])
   \<and> readInt32 [0] = Inr (0, [])
   \<and> deserializeOneNestedSet example_env fresh_jvm [1, 9, 5, 255, 255, 255, 255, 15, 4]
       = (Inr (EMPTY_CHILDREN, [4]), fresh_jvm\<lparr>digestToChild := [[9] \<mapsto> EMPTY_CHILDREN]\<rparr>)
   \<and> deserializeOneNestedSet example_env fresh_jvm [1, 9, 1, 0, 4]
       = deserializeOneNestedSet example_env fresh_jvm [1, 9, 5, 255, 255, 255, 255, 15, 4]"
proof -
  have a: "readBytes [1, 9, 5, 255, 255, 255, 255, 15, 4] = Inr ([9], [5, 255, 255, 255, 255, 15, 4])"
    and b: "readBytes [5, 255, 255, 255, 255, 15, 4] = Inr ([255, 255, 255, 255, 15], [4])"
    and c: "readInt32 [255, 255, 255, 255, 15] = Inr (- 1, [])"
    and a': "readBytes [1, 9, 1, 0, 4] = Inr ([9], [1, 0, 4])"
    and b': "readBytes [1, 0, 4] = Inr ([0], [4])"
    and c': "readInt32 [0] = Inr (0, [])"
    by (simp_all add: read_eval)
  have n: "(- 1 :: int) < 0"
    by simp
  note w = negative_child_count_yields_empty [OF a b c n, of example_env fresh_jvm]
  from w have "deserializeOneNestedSet example_env fresh_jvm [1, 9, 5, 255, 255, 255, 255, 15, 4]
       = (Inr (EMPTY_CHILDREN, [4]), fresh_jvm\<lparr>digestToChild := [[9] \<mapsto> EMPTY_CHILDREN]\<rparr>)"
    by (simp add: fresh_jvm_def)
  moreover from w a' b' c'
  have "deserializeOneNestedSet example_env fresh_jvm [1, 9, 1, 0, 4]
       = deserializeOneNestedSet example_env fresh_jvm [1, 9, 5, 255, 255, 255, 255, 15, 4]"
    by blast
  ultimately show ?thesis
    using a b c a' b' c' by blast
qed

section \<open>References\<close>

text \<open>
  Claim C5, as it is written, does not hold: there is no table of the call. The frame of
  \<open>R\<close> alone, whose entries name the digest of \<open>S\<close>, cannot be read by a fresh process;
  after another call has read \<open>S\<close>, the same bytes are read, and the entries of the new
  array are the array which that other call built.
\<close>

theorem reference_resolved_from_other_call:
  "fst (deserialize example_env fresh_jvm ([1, 2] @ example_frame_R)) = Inl TransitiveMissing
   \<and> deserialize example_env fresh_jvm ([1, 2] @ example_frame_S)
       = (Inr (\<lparr>getOrder = LINK_ORDER, rawChildren = Arr 0\<rparr>, []), jvm_after_S)
   \<and> fst (deserialize example_env jvm_after_S ([1, 2] @ example_frame_R))
       = Inr (\<lparr>getOrder = LINK_ORDER, rawChildren = Arr 1\<rparr>, [])
   \<and> heap (snd (deserialize example_env jvm_after_S ([1, 2] @ example_frame_R))) 1
       = [Arr 0, Arr 0, Elem 9]"
  by (simp add: deserialize_eval read_eval example_eval frame_eval)

text \<open>
  Claim C5, amended. Let a call of \<open>deserialize\<close> in any process have read the first
  frames of a stream, and let the next frame be that of an array, written with any
  digests for the arrays among its entries. The collector may run once more; the entries
  that are references are then looked up in the process-wide map \<open>digestToChild\<close> as it
  stands: what the process held when the call began and the frames so far have added,
  less what the collector has cleared. The call fails with "Transitive nested set
  missing" exactly when one of the digests is not a key of that map; otherwise the new
  array holds, at each reference, the node found there, and the call goes on to the
  frames that remain. There is no table of the call.
\<close>

theorem references_resolved_in_digestToChild:
  assumes "shouldSerializeNestedSet ctx"
    and "deserializeAll ctx j None st codedIn
           = (Inr (prev, writeByteArrayNoTag digest @ writeByteArrayNoTag body @ rest), stj)"
    and "j + Suc l < 2 ^ 31"
    and "serializeMultiItemChildArray ctx es m = Inr body"
    and "2 \<le> length es" and "length es < 2 ^ 31"
    and "\<forall>e \<in> set es. case e of Elem p \<Rightarrow> roundtrips ctx p
                           | Arr b \<Rightarrow> length (the (m e)) < 2 ^ 31
                           | EMPTY_CHILDREN \<Rightarrow> True"
    and "length body < 2 ^ 31" and "length digest < 2 ^ 31"
  shows "let now = collect prev stj;
             found = digestToChild now;
             node = (case found digest of None \<Rightarrow> Arr (nextAddr now) | Some old \<Rightarrow> old);
             after = now\<lparr>heap := (heap now)(nextAddr now := map (resolve m found) es),
                         nextAddr := Suc (nextAddr now),
                         digestToChild :=
                           (case found digest of
                              None \<Rightarrow> found(digest \<mapsto> Arr (nextAddr now))
                            | Some old \<Rightarrow> found)\<rparr>
         in deserialize ctx st
              (writeInt32NoTag (int (j + Suc l)) @ orderCodec_serialize ord @ codedIn) =
           (if \<exists>b. Arr b \<in> set es \<and> found (the (m (Arr b))) = None
            then (Inl TransitiveMissing, now)
            else (case deserializeAll ctx l (Some node) after rest of
                    (Inl e, st') \<Rightarrow> (Inl e, st')
                  | (Inr (None, rest'), st') \<Rightarrow> (Inl IllegalState, st')
                  | (Inr (Some children, rest'), st') \<Rightarrow>
                      (Inr (createNestedSet ord children, rest'), st')))"
proof -
  let ?now = "collect prev stj"
  let ?found = "digestToChild ?now"
  let ?node = "case ?found digest of None \<Rightarrow> Arr (nextAddr ?now) | Some old \<Rightarrow> old"
  let ?after = "?now\<lparr>heap := (heap ?now)(nextAddr ?now := map (resolve m ?found) es),
                       nextAddr := Suc (nextAddr ?now),
                       digestToChild :=
                         (case ?found digest of
                            None \<Rightarrow> ?found(digest \<mapsto> Arr (nextAddr ?now))
                          | Some old \<Rightarrow> ?found)\<rparr>"
  let ?frame = "writeByteArrayNoTag digest @ writeByteArrayNoTag body @ rest"
  from assms(4) obtain eb where eb: "serializeEntries ctx m es = Inr eb"
    and b: "body = writeInt32NoTag (int (length es)) @ eb"
    by (auto simp: serializeMultiItemChildArray_def split: sum.splits)
  have rd: "readBytes ?frame = Inr (digest, writeByteArrayNoTag body @ rest)"
    using assms(9) by (rule readBytes_writeByteArrayNoTag)
  have rb: "readBytes (writeByteArrayNoTag body @ rest) = Inr (body, rest)"
    using assms(8) by (rule readBytes_writeByteArrayNoTag)
  have k: "readInt32 body = Inr (int (length es), eb)"
    using readInt32_write_length [OF assms(6), of eb] by (simp add: b)
  have en: "deserializeEntries ctx ?found (length es) eb =
              (if \<exists>b. Arr b \<in> set es \<and> ?found (the (m (Arr b))) = None then Inl TransitiveMissing
               else Inr (map (resolve m ?found) es, []))"
    using entries_resolved [OF eb assms(7), of ?found "[]"] by simp
  have one: "deserializeOneNestedSet ctx ?now ?frame =
           (if \<exists>b. Arr b \<in> set es \<and> ?found (the (m (Arr b))) = None
            then (Inl TransitiveMissing, ?now)
            else (Inr (?node, rest), ?after))"
    using assms(5)
    by (simp add: deserializeOneNestedSet_def deserializeMultipleItemChildArray_def rd rb k en
        putIfAbsent_def split: option.splits)
  have count: "readInt32 (writeInt32NoTag (int (j + Suc l)) @ orderCodec_serialize ord @ codedIn)
                 = Inr (int (j + Suc l), orderCodec_serialize ord @ codedIn)"
    using assms(3) by (rule readInt32_write_length)
  have loop: "deserializeAll ctx (j + Suc l) None st codedIn =
           (if \<exists>b. Arr b \<in> set es \<and> ?found (the (m (Arr b))) = None
            then (Inl TransitiveMissing, ?now)
            else deserializeAll ctx l (Some ?node) ?after rest)"
  proof (cases "\<exists>b. Arr b \<in> set es \<and> ?found (the (m (Arr b))) = None")
    case True
    from one have "deserializeOneNestedSet ctx ?now ?frame = (Inl TransitiveMissing, ?now)"
      unfolding if_P [OF True] .
    then have "deserializeAll ctx (j + Suc l) None st codedIn = (Inl TransitiveMissing, ?now)"
      by (subst deserializeAll_add) (simp add: assms(2))
    then show ?thesis
      unfolding if_P [OF True] .
  next
    case False
    from one have "deserializeOneNestedSet ctx ?now ?frame = (Inr (?node, rest), ?after)"
      unfolding if_not_P [OF False] .
    then have "deserializeAll ctx (j + Suc l) None st codedIn
        = deserializeAll ctx l (Some ?node) ?after rest"
      by (subst deserializeAll_add) (simp add: assms(2))
    then show ?thesis
      unfolding if_not_P [OF False] .
  qed
  have n: "nat (int (j + Suc l)) = j + Suc l" "1 \<le> int (j + Suc l)"
    by simp_all
  have des: "deserialize ctx st
               (writeInt32NoTag (int (j + Suc l)) @ orderCodec_serialize ord @ codedIn) =
           (case deserializeAll ctx (j + Suc l) None st codedIn of
              (Inl e, st') \<Rightarrow> (Inl e, st')
            | (Inr (None, rest'), st') \<Rightarrow> (Inl IllegalState, st')
            | (Inr (Some children, rest'), st') \<Rightarrow>
                (Inr (createNestedSet ord children, rest'), st'))"
    using assms(1) unfolding deserialize_def count orderCodec_roundtrip sum.case prod.case n
    by simp
  show ?thesis
  proof (cases "\<exists>b. Arr b \<in> set es \<and> ?found (the (m (Arr b))) = None")
    case True
    from loop have "deserializeAll ctx (j + Suc l) None st codedIn = (Inl TransitiveMissing, ?now)"
      unfolding if_P [OF True] .
    then show ?thesis
      unfolding Let_def des if_P [OF True] by simp
  next
    case False
    from loop have "deserializeAll ctx (j + Suc l) None st codedIn
        = deserializeAll ctx l (Some ?node) ?after rest"
      unfolding if_not_P [OF False] .
    then show ?thesis
      unfolding Let_def des if_not_P [OF False] by simp
  qed
qed

theorem references_resolved_in_digestToChild_witness:
  "shouldSerializeNestedSet example_env
   \<and> deserializeAll example_env 1 None fresh_jvm (example_frame_S @ example_frame_R)
       = (Inr (Some (Arr 0), example_frame_R), jvm_after_S)
   \<and> serializeMultiItemChildArray example_env [Arr 1, Arr 1, Elem 9] [Arr 1 \<mapsto> example_digest_S]
       = Inr ([3, 1, 16] @ example_digest_S @ [1, 16] @ example_digest_S @ [0, 9])
   \<and> digestToChild fresh_jvm example_digest_S = None
   \<and> deserialize example_env fresh_jvm ([1, 2] @ example_frame_R)
       = (Inl TransitiveMissing, fresh_jvm)
   \<and> digestToChild jvm_after_S example_digest_S = Some (Arr 0)
   \<and> deserialize example_env fresh_jvm ([2, 2] @ example_frame_S @ example_frame_R)
       = (Inr (\<lparr>getOrder = LINK_ORDER, rawChildren = Arr 1\<rparr>, []),
          jvm_after_S\<lparr>heap := (heap jvm_after_S)(1 := [Arr 0, Arr 0, Elem 9]), nextAddr := 2,
                      digestToChild := (digestToChild jvm_after_S)(example_digest_R \<mapsto> Arr 1)\<rparr>)"
proof -
  let ?body = "[3, 1, 16] @ example_digest_S @ [1, 16] @ example_digest_S @ [0, 9]"
  let ?es = "[Arr 1, Arr 1, Elem 9 :: nat obj]"
  let ?m = "[Arr 1 \<mapsto> example_digest_S] :: nat obj \<rightharpoonup> byte list"
  have on: "shouldSerializeNestedSet example_env"
    by (simp add: example_env_def)
  have body: "serializeMultiItemChildArray example_env ?es ?m = Inr ?body"
    by (simp add: serializeMultiItemChildArray_def write_eval example_eval frame_eval)
  have fr: "example_frame_R = writeByteArrayNoTag example_digest_R @ writeByteArrayNoTag ?body @ []"
    by (simp add: write_eval frame_eval)
  have one: "deserializeAll example_env 1 None fresh_jvm (example_frame_S @ example_frame_R)
       = (Inr (Some (Arr 0), example_frame_R), jvm_after_S)"
    by (simp add: deserialize_eval read_eval example_eval frame_eval)
  have none: "deserializeAll example_env 0 None fresh_jvm example_frame_R
       = (Inr (None, example_frame_R), fresh_jvm)"
    by simp
  have es: "2 \<le> length ?es" "length ?es < 2 ^ 31"
    by simp_all
  have wf: "\<forall>e \<in> set ?es. case e of Elem p \<Rightarrow> roundtrips example_env p
                           | Arr b \<Rightarrow> length (the (?m e)) < 2 ^ 31
                           | EMPTY_CHILDREN \<Rightarrow> True"
    by (simp add: example_roundtrips example_digest_S_def)
  have sizes: "length ?body < 2 ^ 31" "length example_digest_R < 2 ^ 31"
    by (simp_all add: frame_eval)
  have j0: "0 + Suc 0 < 2 ^ 31" and j1: "1 + Suc 0 < 2 ^ 31"
    by simp_all
  have f: "digestToChild fresh_jvm example_digest_S = None"
    "digestToChild jvm_after_S example_digest_S = Some (Arr 0)"
    by (simp_all add: fresh_jvm_def jvm_after_S_def)
  from references_resolved_in_digestToChild [OF on none [unfolded fr] j0 body es wf sizes,
      of LINK_ORDER]
  have a: "deserialize example_env fresh_jvm ([1, 2] @ example_frame_R)
       = (Inl TransitiveMissing, fresh_jvm)"
    by (simp add: Let_def write_eval frame_eval collect_def fresh_jvm_def)
  from references_resolved_in_digestToChild [OF on one [unfolded fr] j1 body es wf sizes,
      of LINK_ORDER]
  have b: "deserialize example_env fresh_jvm ([2, 2] @ example_frame_S @ example_frame_R)
       = (Inr (\<lparr>getOrder = LINK_ORDER, rawChildren = Arr 1\<rparr>, []),
          jvm_after_S\<lparr>heap := (heap jvm_after_S)(1 := [Arr 0, Arr 0, Elem 9]), nextAddr := 2,
                      digestToChild := (digestToChild jvm_after_S)(example_digest_R \<mapsto> Arr 1)\<rparr>)"
    by (simp add: Let_def write_eval frame_eval collect_def fresh_jvm_def resolve_def
        createNestedSet_def)
  from on one body f a b show ?thesis
    by blast
qed

section \<open>The empty set\<close>

text \<open>
  Claim C9, as it is written, does not hold in every process: the reader takes the node
  that the process-wide map already holds under the digest of the frame. After a stream
  whose frame declares the digest of the empty body for the body of a leaf, the bytes
  written for the empty set are read back as that leaf.
\<close>

theorem empty_set_read_back_as_leaf:
  "serialize 1 example_env example_heap \<lparr>getOrder = LINK_ORDER, rawChildren = EMPTY_CHILDREN\<rparr>
     = Some (Inr ([1, 2, 16] @ example_digest_empty @ [1, 0]))
   \<and> fst (deserialize example_env
            (snd (deserialize example_env fresh_jvm ([1, 2, 16] @ example_digest_empty @ [2, 1, 5])))
            ([1, 2, 16] @ example_digest_empty @ [1, 0]))
       = Inr (\<lparr>getOrder = LINK_ORDER, rawChildren = Elem 5\<rparr>, [])"
  by (simp add: serialize_eval write_eval deserialize_eval read_eval example_eval frame_eval)

text \<open>
  Claim C9, amended. With serialization switched on, the empty set is written as the
  count 1, the order, and one frame whose body is the varint 0. Read in a process whose
  map holds nothing under the digest of that body, or holds the sentinel there, these
  bytes give back the empty set of the order that was written.
\<close>

theorem empty_set_frame:
  assumes "shouldSerializeNestedSet ctx"
    and "length (md5 ctx (writeInt32NoTag 0)) < 2 ^ 31"
    and "digestToChild st (md5 ctx (writeInt32NoTag 0)) = None
         \<or> digestToChild st (md5 ctx (writeInt32NoTag 0)) = Some EMPTY_CHILDREN"
  shows "serialize (Suc n) ctx h \<lparr>getOrder = ord, rawChildren = EMPTY_CHILDREN\<rparr>
           = Some (Inr (writeInt32NoTag 1 @ orderCodec_serialize ord
                        @ writeByteArrayNoTag (md5 ctx (writeInt32NoTag 0))
                        @ writeByteArrayNoTag (writeInt32NoTag 0)))
       \<and> fst (deserialize ctx st
                 (writeInt32NoTag 1 @ orderCodec_serialize ord
                    @ writeByteArrayNoTag (md5 ctx (writeInt32NoTag 0))
                    @ writeByteArrayNoTag (writeInt32NoTag 0) @ rest))
           = Inr (\<lparr>getOrder = ord, rawChildren = EMPTY_CHILDREN\<rparr>, rest)"
proof -
  have w0: "writeInt32NoTag 0 = [0]"
    by (simp add: write_eval)
  have ser: "serialize (Suc n) ctx h \<lparr>getOrder = ord, rawChildren = EMPTY_CHILDREN\<rparr>
           = Some (Inr (writeInt32NoTag 1 @ orderCodec_serialize ord
                        @ writeByteArrayNoTag (md5 ctx (writeInt32NoTag 0))
                        @ writeByteArrayNoTag (writeInt32NoTag 0)))"
    using assms(1)
    by (simp add: serialize_def getTopologicallySortedChildren_def add_def serializeOneNestedSet_def)
  have count: "readInt32 (writeInt32NoTag 1 @ bs) = Inr (1, bs)" for bs
    using readInt32_write_length [of 1 bs] by simp
  have body: "readBytes (writeByteArrayNoTag (writeInt32NoTag 0) @ bs) = Inr (writeInt32NoTag 0, bs)" for bs
    by (rule readBytes_writeByteArrayNoTag) (simp add: w0)
  have k: "readInt32 (writeInt32NoTag 0) = Inr (0, [])"
    using readInt32_write_length [of 0 "[]"] by simp
  have held: "digestToChild (collect None st) (md5 ctx (writeInt32NoTag 0)) = None
         \<or> digestToChild (collect None st) (md5 ctx (writeInt32NoTag 0)) = Some EMPTY_CHILDREN"
    using assms(3) collect_lookup [of None st "md5 ctx (writeInt32NoTag 0)"] by auto
  have "\<exists>st1. deserializeOneNestedSet ctx (collect None st)
               (writeByteArrayNoTag (md5 ctx (writeInt32NoTag 0))
                  @ writeByteArrayNoTag (writeInt32NoTag 0) @ rest) = (Inr (EMPTY_CHILDREN, rest), st1)"
    using held
    by (auto simp: deserializeOneNestedSet_def readBytes_writeByteArrayNoTag [OF assms(2)] body k
        putIfAbsent_def)
  then obtain st1 where one: "deserializeOneNestedSet ctx (collect None st)
               (writeByteArrayNoTag (md5 ctx (writeInt32NoTag 0))
                  @ writeByteArrayNoTag (writeInt32NoTag 0) @ rest) = (Inr (EMPTY_CHILDREN, rest), st1)"
    by blast
  have "fst (deserialize ctx st
                 (writeInt32NoTag 1 @ orderCodec_serialize ord
                    @ writeByteArrayNoTag (md5 ctx (writeInt32NoTag 0))
                    @ writeByteArrayNoTag (writeInt32NoTag 0) @ rest))
           = Inr (\<lparr>getOrder = ord, rawChildren = EMPTY_CHILDREN\<rparr>, rest)"
    using assms(1)
    by (simp add: deserialize_def count orderCodec_roundtrip createNestedSet_def one)
  with ser show ?thesis by simp
qed

theorem empty_set_frame_witness:
  "shouldSerializeNestedSet example_env
   \<and> length (md5 example_env (writeInt32NoTag 0)) < 2 ^ 31
   \<and> digestToChild fresh_jvm (md5 example_env (writeInt32NoTag 0)) = None
   \<and> serialize (Suc 0) example_env example_heap
         \<lparr>getOrder = LINK_ORDER, rawChildren = EMPTY_CHILDREN\<rparr>
       = Some (Inr ([1, 2, 16] @ example_digest_empty @ [1, 0]))
   \<and> fst (deserialize example_env fresh_jvm ([1, 2, 16] @ example_digest_empty @ [1, 0] @ [7]))
       = Inr (\<lparr>getOrder = LINK_ORDER, rawChildren = EMPTY_CHILDREN\<rparr>, [7])"
proof -
  have t: "shouldSerializeNestedSet example_env"
    and l: "length (md5 example_env (writeInt32NoTag 0)) < 2 ^ 31"
    and n: "digestToChild fresh_jvm (md5 example_env (writeInt32NoTag 0)) = None"
    by (simp_all add: example_eval)
  have b: "writeInt32NoTag 1 @ orderCodec_serialize LINK_ORDER
             @ writeByteArrayNoTag (md5 example_env (writeInt32NoTag 0))
             @ writeByteArrayNoTag (writeInt32NoTag 0) @ rest
           = [1, 2, 16] @ example_digest_empty @ [1, 0] @ rest" for rest
    by (simp add: write_eval example_eval frame_eval)
  from empty_set_frame [OF t l disjI1 [OF n], of 0 example_heap LINK_ORDER "[7]"] b [of "[7]"] b [of "[]"]
  show ?thesis
    using t l n by simp
qed

section \<open>Reading twice\<close>




section \<open>Determinism\<close>

text \<open>
  Claim C8. \<open>serialize\<close> reads the nested set, the payload codec and the hash, and
  nothing of the process: its table of digests is made anew in each call. Two calls on
  the same nested set that return, whatever the depth of recursion each was allowed,
  return the same bytes. The bytes are the count, the order, and for each sorted node one
  frame: the hash of the body, then the body; the hash is taken over the body alone.
\<close>

theorem serialization_deterministic:
  assumes "shouldSerializeNestedSet ctx"
    and "serialize n1 ctx h nestedSet = Some r1"
    and "serialize n2 ctx h nestedSet = Some r2"
  shows "r1 = r2
       \<and> (\<forall>bytes. r1 = Inr bytes \<longrightarrow>
            (\<exists>topo. getTopologicallySortedChildren n1 h nestedSet = Some topo
                   \<and> getTopologicallySortedChildren n2 h nestedSet = Some topo
                   \<and> length (frame_bodies ctx h Map.empty topo) = length topo
                   \<and> bytes = writeInt32NoTag (int (length topo))
                               @ orderCodec_serialize (getOrder nestedSet)
                               @ concat (map (\<lambda>body. writeByteArrayNoTag (md5 ctx body)
                                                        @ writeByteArrayNoTag body)
                                             (frame_bodies ctx h Map.empty topo))))"
proof -
  let ?c = "rawChildren nestedSet"
  from assms(1,2) obtain topo1 where t1: "dfs n1 h [] ?c = Some topo1"
    by (auto simp: serialize_def getTopologicallySortedChildren_def split: option.splits)
  from assms(1,3) obtain topo2 where t2: "dfs n2 h [] ?c = Some topo2"
    by (auto simp: serialize_def getTopologicallySortedChildren_def split: option.splits)
  have "topo1 = topo2"
  proof (cases "n1 \<le> n2")
    case True
    from dfs_mono [OF t1 True] t2 show ?thesis by simp
  next
    case False
    then have "n2 \<le> n1" by simp
    from dfs_mono [OF t2 this] t1 show ?thesis by simp
  qed
  with t1 t2 assms have eq: "r1 = r2"
    by (simp add: serialize_def getTopologicallySortedChildren_def)
  have "\<exists>topo. getTopologicallySortedChildren n1 h nestedSet = Some topo
           \<and> getTopologicallySortedChildren n2 h nestedSet = Some topo
           \<and> length (frame_bodies ctx h Map.empty topo) = length topo
           \<and> bytes = writeInt32NoTag (int (length topo))
                       @ orderCodec_serialize (getOrder nestedSet)
                       @ concat (map (\<lambda>body. writeByteArrayNoTag (md5 ctx body)
                                                @ writeByteArrayNoTag body)
                                     (frame_bodies ctx h Map.empty topo))"
    if "r1 = Inr bytes" for bytes
  proof -
    from that assms(1,2) t1 obtain m' where
      "serializeAll ctx h topo1
         (writeInt32NoTag (int (length topo1)) @ orderCodec_serialize (getOrder nestedSet), Map.empty)
       = Inr (bytes, m')"
      by (cases "serializeAll ctx h topo1
         (writeInt32NoTag (int (length topo1)) @ orderCodec_serialize (getOrder nestedSet), Map.empty)")
        (auto simp: serialize_def getTopologicallySortedChildren_def)
    from serializeAll_frames [OF this] t1 t2 \<open>topo1 = topo2\<close> show ?thesis
      by (auto simp: getTopologicallySortedChildren_def frame_def [abs_def])
  qed
  with eq show ?thesis
    by blast
qed

theorem serialization_deterministic_witness:
  "shouldSerializeNestedSet example_env
   \<and> serialize 2 example_env example_heap \<lparr>getOrder = LINK_ORDER, rawChildren = Arr 2\<rparr>
       = Some (Inr ([2, 2] @ example_frame_S @ example_frame_R))
   \<and> serialize 5 example_env example_heap \<lparr>getOrder = LINK_ORDER, rawChildren = Arr 2\<rparr>
       = Some (Inr ([2, 2] @ example_frame_S @ example_frame_R))
   \<and> (\<exists>topo. getTopologicallySortedChildren 2 example_heap
                 \<lparr>getOrder = LINK_ORDER, rawChildren = Arr 2\<rparr> = Some topo
            \<and> getTopologicallySortedChildren 5 example_heap
                 \<lparr>getOrder = LINK_ORDER, rawChildren = Arr 2\<rparr> = Some topo
            \<and> length (frame_bodies example_env example_heap Map.empty topo) = length topo
            \<and> [2, 2] @ example_frame_S @ example_frame_R
                = writeInt32NoTag (int (length topo)) @ orderCodec_serialize LINK_ORDER
                  @ concat (map (\<lambda>body. writeByteArrayNoTag (md5 example_env body)
                                           @ writeByteArrayNoTag body)
                                (frame_bodies example_env example_heap Map.empty topo)))"
proof -
  have on: "shouldSerializeNestedSet example_env"
    by (simp add: example_env_def)
  have s5: "serialize 5 example_env example_heap \<lparr>getOrder = LINK_ORDER, rawChildren = Arr 2\<rparr>
       = Some (Inr ([2, 2] @ example_frame_S @ example_frame_R))"
    by (simp add: serialize_eval write_eval example_eval frame_eval)
  from serialization_deterministic [OF on serialize_example s5] on serialize_example s5
  show ?thesis
    by simp
qed

section \<open>Round trip\<close>

text \<open>
  Claim C1, as it is written, does not hold in every process: the reader takes the node
  the process-wide map already holds under the digest a frame declares, and never checks
  the digest against the body. After a stream whose frame declares the digest of the
  single element 7 for the body of the single element 9, the bytes written for 7 are read
  back as 9.
\<close>

theorem leaf_read_back_as_other_leaf:
  "serialize 1 example_env example_heap \<lparr>getOrder = LINK_ORDER, rawChildren = Elem 7\<rparr>
     = Some (Inr ([1, 2, 16] @ example_digest_leaf @ [2, 1, 7]))
   \<and> fst (deserialize example_env
            (snd (deserialize example_env fresh_jvm ([1, 2, 16] @ example_digest_leaf @ [2, 1, 9])))
            ([1, 2, 16] @ example_digest_leaf @ [2, 1, 7]))
       = Inr (\<lparr>getOrder = LINK_ORDER, rawChildren = Elem 9\<rparr>, [])
   \<and> \<not> (\<exists>hp t. unfolds example_heap (Elem 7) t \<and> unfolds hp (Elem (9::nat)) t)"
proof -
  have "serialize 1 example_env example_heap \<lparr>getOrder = LINK_ORDER, rawChildren = Elem 7\<rparr>
     = Some (Inr ([1, 2, 16] @ example_digest_leaf @ [2, 1, 7]))"
    by (simp add: serialize_eval write_eval example_eval more_eval)
  moreover have "fst (deserialize example_env
            (snd (deserialize example_env fresh_jvm ([1, 2, 16] @ example_digest_leaf @ [2, 1, 9])))
            ([1, 2, 16] @ example_digest_leaf @ [2, 1, 7]))
       = Inr (\<lparr>getOrder = LINK_ORDER, rawChildren = Elem 9\<rparr>, [])"
    by (simp add: deserialize_eval read_eval example_eval more_eval)
  moreover have "\<not> (\<exists>hp t. unfolds example_heap (Elem 7) t \<and> unfolds hp (Elem (9::nat)) t)"
    by (auto dest!: unfolds_Elem)
  ultimately show ?thesis by simp
qed

text \<open>
  Claim C1, amended. Let the codec be switched on and a nested set be written: its sorted
  nodes fewer than \<open>2^31\<close>, each well-formed (arrays of at least two and fewer than
  \<open>2^31\<close> entries, payloads that round-trip), bodies and digests shorter than \<open>2^31\<close>
  bytes, and no two different bodies with the same digest. Let the reader's process be
  consistent for the nodes: whatever its map already holds under the digest of one of
  them is a copy of that node. Let the collector, while the stream is read, try no entry
  under the digest of one of the nodes. Then the bytes are read without error, and the
  nested set returned has the same order and the same shape: the same entries in the
  same order with equal payloads, at every depth.
\<close>

theorem read_back_structurally_equal:
  assumes "shouldSerializeNestedSet ctx"
    and "getTopologicallySortedChildren n h nestedSet = Some topo"
    and "serializeAll ctx h topo
           (writeInt32NoTag (int (length topo)) @ orderCodec_serialize (getOrder nestedSet),
            Map.empty) = Inr (bytes, m')"
    and "length topo < 2 ^ 31"
    and "\<forall>c \<in> set topo. well_formed ctx h c"
    and "\<forall>b \<in> set (frame_bodies ctx h Map.empty topo).
           length b < 2 ^ 31 \<and> length (md5 ctx b) < 2 ^ 31"
    and "inj_on (md5 ctx) (set (frame_bodies ctx h Map.empty topo))"
    and "consistent h m' (set topo) st"
    and "\<forall>ks \<in> set (collector st).
           ks \<inter> md5 ctx ` set (frame_bodies ctx h Map.empty topo) = {}"
  shows "serialize n ctx h nestedSet = Some (Inr bytes)
       \<and> (\<exists>r st' t. deserialize ctx st (bytes @ rest) = (Inr (r, rest), st')
             \<and> getOrder r = getOrder nestedSet
             \<and> unfolds h (rawChildren nestedSet) t
             \<and> unfolds (heap st') (rawChildren r) t)"
proof -
  from read_back_copies [OF assms, of rest] obtain r st' where
    des: "deserialize ctx st (bytes @ rest) = (Inr (r, rest), st')"
    and ord: "getOrder r = getOrder nestedSet"
    and root: "digestToChild st' (the (m' (rawChildren nestedSet))) = Some (rawChildren r)"
    and cons: "consistent h m' (set topo) st'"
    and all: "\<forall>c \<in> set topo. digestToChild st' (the (m' c)) \<noteq> None"
    by blast
  note sc = sorted_children [OF assms(2)]
  have "\<forall>c \<in> set topo.
          \<exists>t. unfolds h c t \<and> unfolds (heap st') (the (digestToChild st' (the (m' c)))) t"
  proof (rule copies_unfold)
    show "\<forall>c \<in> set [] \<union> set topo.
            \<exists>c'. digestToChild st' (the (m' c)) = Some c' \<and> copy_of h m' st' c c'"
      using consistent_copies [OF cons all] by simp
    show "topological h [] topo" by (rule sc(2))
  qed simp
  moreover from sc(3,4) have "rawChildren nestedSet \<in> set topo"
    using last_in_set [of topo] by simp
  ultimately obtain t where "unfolds h (rawChildren nestedSet) t"
    "unfolds (heap st') (the (digestToChild st' (the (m' (rawChildren nestedSet))))) t"
    by blast
  with root des ord have "\<exists>r st' t. deserialize ctx st (bytes @ rest) = (Inr (r, rest), st')
             \<and> getOrder r = getOrder nestedSet
             \<and> unfolds h (rawChildren nestedSet) t
             \<and> unfolds (heap st') (rawChildren r) t"
    by auto
  moreover from assms(1-3) have "serialize n ctx h nestedSet = Some (Inr bytes)"
    by (simp add: serialize_def)
  ultimately show ?thesis by simp
qed

theorem read_back_structurally_equal_witness:
  "shouldSerializeNestedSet example_env
   \<and> getTopologicallySortedChildren 2 example_heap \<lparr>getOrder = LINK_ORDER, rawChildren = Arr 2\<rparr>
       = Some [Arr 1, Arr 2]
   \<and> inj_on (md5 example_env) (set (frame_bodies example_env example_heap Map.empty [Arr 1, Arr 2]))
   \<and> digestToChild jvm_collecting example_digest_S = Some (Arr 0)
   \<and> heap jvm_collecting 0 = [Elem 7, Elem 8]
   \<and> collector jvm_collecting = [{example_digest_X}, {example_digest_Y}]
   \<and> serialize 2 example_env example_heap \<lparr>getOrder = LINK_ORDER, rawChildren = Arr 2\<rparr>
       = Some (Inr ([2, 2] @ example_frame_S @ example_frame_R))
   \<and> (\<exists>r st' t.
         deserialize example_env jvm_collecting (([2, 2] @ example_frame_S @ example_frame_R) @ [])
           = (Inr (r, []), st')
         \<and> getOrder r = LINK_ORDER
         \<and> unfolds example_heap (Arr 2) t \<and> unfolds (heap st') (rawChildren r) t)"
proof -
  have on: "shouldSerializeNestedSet example_env"
    by (simp add: example_env_def)
  have len: "length [Arr 1, Arr 2 :: nat obj] < 2 ^ 31"
    by simp
  have ser: "serializeAll example_env example_heap [Arr 1, Arr 2]
     (writeInt32NoTag (int (length [Arr 1, Arr 2 :: nat obj]))
        @ orderCodec_serialize (getOrder \<lparr>getOrder = LINK_ORDER, rawChildren = Arr 2\<rparr>),
      Map.empty)
   = Inr ([2, 2] @ example_frame_S @ example_frame_R,
          [Arr 1 \<mapsto> example_digest_S, Arr 2 \<mapsto> example_digest_R])"
    using serializeAll_example by simp
  have st: "digestToChild jvm_collecting example_digest_S = Some (Arr 0)"
    "heap jvm_collecting 0 = [Elem 7, Elem 8]"
    "collector jvm_collecting = [{example_digest_X}, {example_digest_Y}]"
    by (simp_all add: jvm_collecting_def jvm_after_S_def)
  note w = read_back_structurally_equal [OF on example_topo ser len example_well_formed
      example_sizes example_no_collision consistent_collecting collector_collecting,
      of "[]", unfolded NestedSet.select_convs]
  from w on example_topo example_no_collision st
  show ?thesis
    by blast
qed

section \<open>Sharing\<close>

text \<open>
  Claim C2, as it is written, does not hold in every process. Let a process have read a
  stream that declares, under the digest of \<open>R = [S, S, "9"]\<close>, an array of two different
  copies of \<open>S\<close>. The bytes written for \<open>R\<close> are then read back as that array: the two
  positions that referred to the one \<open>S\<close> hold two different arrays.
\<close>

theorem shared_array_read_back_unshared:
  "example_heap 2 = [Arr 1, Arr 1, Elem 9]
   \<and> serialize 2 example_env example_heap \<lparr>getOrder = LINK_ORDER, rawChildren = Arr 2\<rparr>
       = Some (Inr ([2, 2] @ example_frame_S @ example_frame_R))
   \<and> fst (deserialize example_env (snd (deserialize example_env fresh_jvm example_unshared))
            ([2, 2] @ example_frame_S @ example_frame_R))
       = Inr (\<lparr>getOrder = LINK_ORDER, rawChildren = Arr 2\<rparr>, [])
   \<and> heap (snd (deserialize example_env (snd (deserialize example_env fresh_jvm example_unshared))
                  ([2, 2] @ example_frame_S @ example_frame_R))) 2
       = [Arr 0, Arr 1, Elem 9]"
proof -
  have "example_heap 2 = [Arr 1, Arr 1, Elem 9]"
    by (simp add: example_heap_def)
  moreover have "fst (deserialize example_env (snd (deserialize example_env fresh_jvm example_unshared))
            ([2, 2] @ example_frame_S @ example_frame_R))
       = Inr (\<lparr>getOrder = LINK_ORDER, rawChildren = Arr 2\<rparr>, [])"
    by (simp add: deserialize_eval read_eval example_eval frame_eval more_eval)
  moreover have "heap (snd (deserialize example_env (snd (deserialize example_env fresh_jvm example_unshared))
                  ([2, 2] @ example_frame_S @ example_frame_R))) 2
       = [Arr 0, Arr 1, Elem 9]"
    by (simp add: deserialize_eval read_eval example_eval frame_eval more_eval)
  ultimately show ?thesis
    using serialize_example by blast
qed

text \<open>
  Claim C2, amended. Under the conditions of the amended claim C1, which include that
  the collector tries no entry of the nodes while the stream is read, the sorted nodes are
  distinct and are the nodes reachable from the root, and the bytes hold one frame for
  each of them, in that order: one frame for a node however many positions refer to it.
  The bytes are read without error, and there is a function \<open>f\<close> from the nodes written
  to the objects of the reader's process that takes the root to the root returned and
  every array to an array of the same length which holds, where the written array holds
  an array \<open>S\<close>, the one object \<open>f S\<close>, and where it holds an element, that element. All
  positions that referred to one node refer to one object.
\<close>

theorem sharing_preserved:
  assumes "shouldSerializeNestedSet ctx"
    and "getTopologicallySortedChildren n h nestedSet = Some topo"
    and "serializeAll ctx h topo
           (writeInt32NoTag (int (length topo)) @ orderCodec_serialize (getOrder nestedSet),
            Map.empty) = Inr (bytes, m')"
    and "length topo < 2 ^ 31"
    and "\<forall>c \<in> set topo. well_formed ctx h c"
    and "\<forall>b \<in> set (frame_bodies ctx h Map.empty topo).
           length b < 2 ^ 31 \<and> length (md5 ctx b) < 2 ^ 31"
    and "inj_on (md5 ctx) (set (frame_bodies ctx h Map.empty topo))"
    and "consistent h m' (set topo) st"
    and "\<forall>ks \<in> set (collector st).
           ks \<inter> md5 ctx ` set (frame_bodies ctx h Map.empty topo) = {}"
  shows "serialize n ctx h nestedSet = Some (Inr bytes)
       \<and> distinct topo \<and> set topo = reach h (rawChildren nestedSet)
       \<and> length (frame_bodies ctx h Map.empty topo) = length topo
       \<and> bytes = writeInt32NoTag (int (length topo)) @ orderCodec_serialize (getOrder nestedSet)
                   @ concat (map (frame ctx) (frame_bodies ctx h Map.empty topo))
       \<and> (\<exists>r st' f. deserialize ctx st (bytes @ rest) = (Inr (r, rest), st')
             \<and> rawChildren r = f (rawChildren nestedSet)
             \<and> (\<forall>a. Arr a \<in> set topo \<longrightarrow>
                   (\<exists>a'. f (Arr a) = Arr a' \<and> length (heap st' a') = length (h a)
                        \<and> (\<forall>i < length (h a).
                              heap st' a' ! i = (case h a ! i of Arr b \<Rightarrow> f (h a ! i) | e \<Rightarrow> e)))))"
proof -
  from read_back_copies [OF assms, of rest] obtain r st' where
    des: "deserialize ctx st (bytes @ rest) = (Inr (r, rest), st')"
    and root: "digestToChild st' (the (m' (rawChildren nestedSet))) = Some (rawChildren r)"
    and cons: "consistent h m' (set topo) st'"
    and all: "\<forall>c \<in> set topo. digestToChild st' (the (m' c)) \<noteq> None"
    by blast
  let ?f = "\<lambda>c. the (digestToChild st' (the (m' c)))"
  have "\<exists>a'. ?f (Arr a) = Arr a' \<and> length (heap st' a') = length (h a)
          \<and> (\<forall>i < length (h a).
                heap st' a' ! i = (case h a ! i of Arr b \<Rightarrow> ?f (h a ! i) | e \<Rightarrow> e))"
    if "Arr a \<in> set topo" for a
  proof -
    from consistent_copies [OF cons all] that obtain c' where
      "digestToChild st' (the (m' (Arr a))) = Some c'" "copy_of h m' st' (Arr a) c'"
      by blast
    then obtain a' where a': "?f (Arr a) = Arr a'"
      and hp: "heap st' a' = map (resolve m' (digestToChild st')) (h a)"
      by (auto simp: copy_of_Arr)
    have "heap st' a' ! i = (case h a ! i of Arr b \<Rightarrow> ?f (h a ! i) | e \<Rightarrow> e)"
      if "i < length (h a)" for i
      using that by (simp add: hp resolve_def split: obj.splits)
    with a' hp show ?thesis
      by simp
  qed
  with des root have "\<exists>r st' f. deserialize ctx st (bytes @ rest) = (Inr (r, rest), st')
             \<and> rawChildren r = f (rawChildren nestedSet)
             \<and> (\<forall>a. Arr a \<in> set topo \<longrightarrow>
                   (\<exists>a'. f (Arr a) = Arr a' \<and> length (heap st' a') = length (h a)
                        \<and> (\<forall>i < length (h a).
                              heap st' a' ! i = (case h a ! i of Arr b \<Rightarrow> f (h a ! i) | e \<Rightarrow> e))))"
    by (intro exI [of _ r] exI [of _ st'] exI [of _ ?f]) simp
  moreover from assms(1-3) have "serialize n ctx h nestedSet = Some (Inr bytes)"
    by (simp add: serialize_def)
  moreover note sorted_children(1) [OF assms(2)] sorted_children_reach [OF assms(2)]
    serializeAll_frames [OF assms(3)]
  ultimately show ?thesis
    by simp
qed

theorem sharing_preserved_witness:
  "shouldSerializeNestedSet example_env
   \<and> getTopologicallySortedChildren 2 example_heap \<lparr>getOrder = LINK_ORDER, rawChildren = Arr 2\<rparr>
       = Some [Arr 1, Arr 2]
   \<and> inj_on (md5 example_env) (set (frame_bodies example_env example_heap Map.empty [Arr 1, Arr 2]))
   \<and> digestToChild fresh_collecting = Map.empty
   \<and> collector fresh_collecting = [{example_digest_Y}, {example_digest_X}]
   \<and> example_heap 2 = [Arr 1, Arr 1, Elem 9]
   \<and> serialize 2 example_env example_heap \<lparr>getOrder = LINK_ORDER, rawChildren = Arr 2\<rparr>
       = Some (Inr ([2, 2] @ example_frame_S @ example_frame_R))
   \<and> set [Arr 1, Arr 2] = reach example_heap (Arr 2)
   \<and> length (frame_bodies example_env example_heap Map.empty [Arr 1, Arr 2])
       = length [Arr 1, Arr 2 :: nat obj]
   \<and> (\<exists>r st' f a'.
         deserialize example_env fresh_collecting (([2, 2] @ example_frame_S @ example_frame_R) @ [])
           = (Inr (r, []), st')
         \<and> rawChildren r = f (Arr 2 :: nat obj) \<and> f (Arr 2) = Arr a'
         \<and> heap st' a' ! 0 = f (Arr 1) \<and> heap st' a' ! 1 = f (Arr 1)
         \<and> heap st' a' ! 2 = Elem 9)"
proof -
  have on: "shouldSerializeNestedSet example_env"
    by (simp add: example_env_def)
  have len: "length [Arr 1, Arr 2 :: nat obj] < 2 ^ 31"
    by simp
  have ser: "serializeAll example_env example_heap [Arr 1, Arr 2]
     (writeInt32NoTag (int (length [Arr 1, Arr 2 :: nat obj]))
        @ orderCodec_serialize (getOrder \<lparr>getOrder = LINK_ORDER, rawChildren = Arr 2\<rparr>),
      Map.empty)
   = Inr ([2, 2] @ example_frame_S @ example_frame_R,
          [Arr 1 \<mapsto> example_digest_S, Arr 2 \<mapsto> example_digest_R])"
    using serializeAll_example by simp
  have fresh: "consistent example_heap [Arr 1 \<mapsto> example_digest_S, Arr 2 \<mapsto> example_digest_R]
        (set [Arr 1, Arr 2]) fresh_collecting"
    by (simp add: consistent_def fresh_collecting_def fresh_jvm_def)
  have st: "digestToChild fresh_collecting = Map.empty"
    "collector fresh_collecting = [{example_digest_Y}, {example_digest_X}]"
    by (simp_all add: fresh_collecting_def fresh_jvm_def)
  have hp: "example_heap 2 = [Arr 1, Arr 1, Elem 9]"
    by (simp add: example_heap_def)
  note w = sharing_preserved [OF on example_topo ser len example_well_formed
      example_sizes example_no_collision fresh collector_fresh_collecting,
      of "[]", unfolded NestedSet.select_convs]
  from w obtain r st' f where
    des: "deserialize example_env fresh_collecting (([2, 2] @ example_frame_S @ example_frame_R) @ [])
           = (Inr (r, []), st')"
    and root: "rawChildren r = f (Arr 2)"
    and all: "\<forall>a. Arr a \<in> set [Arr 1, Arr 2 :: nat obj] \<longrightarrow>
               (\<exists>a'. f (Arr a) = Arr a' \<and> length (heap st' a') = length (example_heap a)
                    \<and> (\<forall>i < length (example_heap a).
                          heap st' a' ! i
                            = (case example_heap a ! i of Arr b \<Rightarrow> f (example_heap a ! i) | e \<Rightarrow> e)))"
    by blast
  from all obtain a' where a': "f (Arr 2) = Arr a'"
    and pos: "\<forall>i < length (example_heap 2).
                heap st' a' ! i
                  = (case example_heap 2 ! i of Arr b \<Rightarrow> f (example_heap 2 ! i) | e \<Rightarrow> e)"
    by auto
  from pos have "heap st' a' ! 0 = f (Arr 1)" "heap st' a' ! 1 = f (Arr 1)"
    "heap st' a' ! 2 = Elem 9"
    by (simp_all add: hp)
  with des root a' have found: "deserialize example_env fresh_collecting
           (([2, 2] @ example_frame_S @ example_frame_R) @ []) = (Inr (r, []), st')
         \<and> rawChildren r = f (Arr 2 :: nat obj) \<and> f (Arr 2) = Arr a'
         \<and> heap st' a' ! 0 = f (Arr 1) \<and> heap st' a' ! 1 = f (Arr 1)
         \<and> heap st' a' ! 2 = Elem 9"
    by blast
  have "\<exists>r st' f a'.
         deserialize example_env fresh_collecting (([2, 2] @ example_frame_S @ example_frame_R) @ [])
           = (Inr (r, []), st')
         \<and> rawChildren r = f (Arr 2 :: nat obj) \<and> f (Arr 2) = Arr a'
         \<and> heap st' a' ! 0 = f (Arr 1) \<and> heap st' a' ! 1 = f (Arr 1)
         \<and> heap st' a' ! 2 = Elem 9"
    by (rule exI [of _ r], rule exI [of _ st'], rule exI [of _ f], rule exI [of _ a'],
        rule found)
  with w on example_topo example_no_collision st hp show ?thesis
    by blast
qed

end
